theory Spec2Isabelle
  imports Main "HOL-Library.Word" "HOL-Library.Sublist"
begin

unbundle bit_operations_syntax

section \<open>Data model of HD44780toSerial.ino\<close>

text \<open>
  The sketch runs on an 8-bit AVR board: \<open>byte\<close>, \<open>char\<close> and \<open>unsigned char\<close> are 8 bits,
  \<open>unsigned long\<close> (the type of \<open>millis()\<close>) is 32 bits and wraps around. The two buffer
  indices are C \<open>int\<close>s; they are modelled as unbounded integers with the bit mask written
  out, and are shown below to stay within 0..1023, so the C addition \<open>idx + 1\<close> never
  overflows.
\<close>

type_synonym byte = "8 word"
type_synonym time = "32 word"
type_synonym pin = int

abbreviation BUFFER_SIZE :: int where "BUFFER_SIZE \<equiv> 1024"
abbreviation BUFFER_INDEX_MASK :: int where "BUFFER_INDEX_MASK \<equiv> BUFFER_SIZE - 1"

abbreviation Pin_ROT_A :: pin where "Pin_ROT_A \<equiv> 18"
abbreviation Pin_ROT_B :: pin where "Pin_ROT_B \<equiv> 19"
abbreviation Pin_RIGHT_BUTTON :: pin where "Pin_RIGHT_BUTTON \<equiv> 3"
abbreviation Pin_LEFT_BUTTON :: pin where "Pin_LEFT_BUTTON \<equiv> 4"
abbreviation Pin_ENCODER_BUTTON :: pin where "Pin_ENCODER_BUTTON \<equiv> 5"
abbreviation Pin_LCD_ENABLE :: pin where "Pin_LCD_ENABLE \<equiv> 7"
abbreviation Pin_LCD_POWER :: pin where "Pin_LCD_POWER \<equiv> 6"
abbreviation Pin_PUSH_TO_TALK :: pin where "Pin_PUSH_TO_TALK \<equiv> 2"
abbreviation Pin_USDX_RESET :: pin where "Pin_USDX_RESET \<equiv> 13"

text \<open>
  Modelled from the spec: \<open>LED_BUILTIN\<close>, the overflow-indicator line, is a constant of
  the board support package that the sketch uses and does not define. It is taken to be
  pin 13, as on the Arduino Nano boards.
\<close>

abbreviation LED_BUILTIN :: pin where "LED_BUILTIN \<equiv> 13"

abbreviation PULSE_DURATION :: time where "PULSE_DURATION \<equiv> 5"

abbreviation HIGH :: bool where "HIGH \<equiv> True"
abbreviation LOW :: bool where "LOW \<equiv> False"

datatype pin_mode = INPUT | OUTPUT | INPUT_PULLUP | INPUT_PULLDOWN

datatype ctrl_msg_t = USDX_POWERED_UP | USDX_POWERED_DOWN

fun ctrl_msg_value :: "ctrl_msg_t \<Rightarrow> byte" where
  "ctrl_msg_value USDX_POWERED_UP = 0xFF"
| "ctrl_msg_value USDX_POWERED_DOWN = 0xFE"

datatype state_t = ENC_STATE_IDLE | ENC_STATE_1 | ENC_STATE_2 | ENC_STATE_3

datatype isr = LcdActivityISR | UsdxPowerDownISR

text \<open>
  The globals of the sketch, followed by the hardware it talks to: per pin the
  direction set by \<open>pinMode\<close>, the output latch set by \<open>digitalWrite\<close> and the level the
  outside world applies (seen by \<open>digitalRead\<close> on a pin that is not an output); the
  handler attached to each pin's interrupt; the bytes written to and waiting on the
  serial link.
\<close>

record machine =
  usdxPowerOn :: bool
  lcdBuffer :: "byte list"
  idxOfNextLcdWrite :: int
  idxOfNextLcdRead :: int
  gestureInProgress :: bool
  Button_timeOfClickStart :: time
  Button_pinOfButtonClicked :: pin
  Encoder_stateTime :: time
  Encoder_state :: state_t
  Encoder_firstPin :: pin
  Encoder_secondPin :: pin
  pinModes :: "pin \<Rightarrow> pin_mode"
  pinLevels :: "pin \<Rightarrow> bool"
  pinInputs :: "pin \<Rightarrow> bool"
  interrupts :: "pin \<Rightarrow> isr option"
  serialOut :: "byte list"
  serialIn :: "byte list"

section \<open>Platform services\<close>

definition pinMode :: "pin \<Rightarrow> pin_mode \<Rightarrow> machine \<Rightarrow> machine" where
  "pinMode p m s = s\<lparr>pinModes := (pinModes s)(p := m)\<rparr>"

definition digitalWrite :: "pin \<Rightarrow> bool \<Rightarrow> machine \<Rightarrow> machine" where
  "digitalWrite p v s = s\<lparr>pinLevels := (pinLevels s)(p := v)\<rparr>"

definition digitalRead :: "machine \<Rightarrow> pin \<Rightarrow> bool" where
  "digitalRead s p = (if pinModes s p = OUTPUT then pinLevels s p else pinInputs s p)"

definition attachInterrupt :: "pin \<Rightarrow> isr \<Rightarrow> machine \<Rightarrow> machine" where
  "attachInterrupt p h s = s\<lparr>interrupts := (interrupts s)(p := Some h)\<rparr>"

definition detachInterrupt :: "pin \<Rightarrow> machine \<Rightarrow> machine" where
  "detachInterrupt p s = s\<lparr>interrupts := (interrupts s)(p := None)\<rparr>"

definition Serial_write :: "byte \<Rightarrow> machine \<Rightarrow> machine" where
  "Serial_write b s = s\<lparr>serialOut := serialOut s @ [b]\<rparr>"

section \<open>Control messages\<close>

text \<open>
  \<open>bits1\<close> and \<open>bits2\<close> are the two locals of \<open>sendControlMessage\<close>. \<open>cMsg\<close> is a
  (signed) \<open>char\<close>: in each \<open>&\<close> it is promoted to \<open>int\<close> with sign extension, the
  shifts and the \<open>|\<close> are done on \<open>int\<close>, and the result is cut back to 8 bits by the
  assignment to a \<open>char\<close>.
\<close>

definition bits1 :: "byte \<Rightarrow> byte" where
  "bits1 cMsg = word_of_int (drop_bit 2 (0x80 AND sint cMsg) OR drop_bit 4 (0x70 AND sint cMsg))"

definition bits2 :: "byte \<Rightarrow> byte" where
  "bits2 cMsg = word_of_int (push_bit 2 (0x08 AND sint cMsg) OR push_bit 0 (0x07 AND sint cMsg))"

definition sendControlMessage :: "ctrl_msg_t \<Rightarrow> machine \<Rightarrow> machine" where
  "sendControlMessage msg s =
     (let cMsg = ctrl_msg_value msg
      in Serial_write (bits2 cMsg) (Serial_write (bits1 cMsg) s))"

section \<open>Interrupt handlers\<close>

definition usdxPowerDownISR :: "machine \<Rightarrow> machine" where
  "usdxPowerDownISR s = s\<lparr>usdxPowerOn := False\<rparr>"

text \<open>The argument \<open>portd\<close> is the value read from \<open>PORTD.IN\<close>.\<close>

definition lcdActivityISR :: "byte \<Rightarrow> machine \<Rightarrow> machine" where
  "lcdActivityISR portd s =
     (let s1 = s\<lparr>lcdBuffer := (lcdBuffer s)[nat (idxOfNextLcdWrite s) := portd]\<rparr>;
          s2 = s1\<lparr>idxOfNextLcdWrite := (idxOfNextLcdWrite s1 + 1) AND BUFFER_INDEX_MASK\<rparr>
      in if idxOfNextLcdWrite s2 = idxOfNextLcdRead s2
         then digitalWrite LED_BUILTIN HIGH s2
         else s2)"

section \<open>Button emulator\<close>

definition Button_clickInProgress :: "machine \<Rightarrow> bool" where
  "Button_clickInProgress s = (Button_pinOfButtonClicked s > 0)"

text \<open>The argument \<open>now\<close> is the value returned by the call of \<open>millis()\<close>.\<close>

definition Button_startClick :: "pin \<Rightarrow> bool \<Rightarrow> time \<Rightarrow> machine \<Rightarrow> machine" where
  "Button_startClick buttonPin pushedState now s =
     (let s1 = pinMode buttonPin OUTPUT s;
          s2 = digitalWrite buttonPin pushedState s1
      in s2\<lparr>Button_timeOfClickStart := now, Button_pinOfButtonClicked := buttonPin\<rparr>)"

definition Button_endClick :: "machine \<Rightarrow> machine" where
  "Button_endClick s =
     (let newState = \<not> digitalRead s (Button_pinOfButtonClicked s);
          s1 = digitalWrite (Button_pinOfButtonClicked s) newState s;
          s2 = pinMode (Button_pinOfButtonClicked s1) INPUT s1
      in s2\<lparr>Button_timeOfClickStart := 0, Button_pinOfButtonClicked := 0,
            gestureInProgress := False\<rparr>)"

definition Button_emulate :: "time \<Rightarrow> machine \<Rightarrow> machine" where
  "Button_emulate now s =
     (let isTimeToEndClick = (now > Button_timeOfClickStart s + PULSE_DURATION)
      in if isTimeToEndClick then Button_endClick s else s)"

section \<open>Encoder emulator\<close>

definition Encoder_rotationInProgress :: "machine \<Rightarrow> bool" where
  "Encoder_rotationInProgress s = (Encoder_state s \<noteq> ENC_STATE_IDLE)"

definition Encoder_dropFirstPin :: "time \<Rightarrow> machine \<Rightarrow> machine" where
  "Encoder_dropFirstPin now s =
     (let s1 = pinMode (Encoder_firstPin s) OUTPUT s;
          s2 = digitalWrite (Encoder_firstPin s1) LOW s1
      in s2\<lparr>Encoder_state := ENC_STATE_1, Encoder_stateTime := now\<rparr>)"

definition Encoder_dropSecondPin :: "time \<Rightarrow> machine \<Rightarrow> machine" where
  "Encoder_dropSecondPin now s =
     (let s1 = pinMode (Encoder_secondPin s) OUTPUT s;
          s2 = digitalWrite (Encoder_secondPin s1) LOW s1
      in s2\<lparr>Encoder_state := ENC_STATE_2, Encoder_stateTime := now\<rparr>)"

definition Encoder_raiseFirstPin :: "time \<Rightarrow> machine \<Rightarrow> machine" where
  "Encoder_raiseFirstPin now s =
     (let s1 = pinMode (Encoder_firstPin s) INPUT s
      in s1\<lparr>Encoder_state := ENC_STATE_3, Encoder_stateTime := now\<rparr>)"

definition Encoder_raiseSecondPin :: "time \<Rightarrow> machine \<Rightarrow> machine" where
  "Encoder_raiseSecondPin now s =
     (let s1 = pinMode (Encoder_secondPin s) INPUT s
      in s1\<lparr>Encoder_state := ENC_STATE_IDLE, Encoder_stateTime := now\<rparr>)"

definition Encoder_startRotation :: "pin \<Rightarrow> pin \<Rightarrow> time \<Rightarrow> machine \<Rightarrow> machine" where
  "Encoder_startRotation first second now s =
     Encoder_dropFirstPin now (s\<lparr>Encoder_firstPin := first, Encoder_secondPin := second\<rparr>)"

text \<open>
  \<open>Encoder::emulate\<close> calls \<open>millis()\<close> twice: \<open>now\<close> is the value compared with
  \<open>stateTime\<close>, \<open>entry\<close> the one stored by the transition. The \<open>switch\<close> has no case
  for \<open>ENC_STATE_IDLE\<close>.
\<close>

definition Encoder_emulate :: "time \<Rightarrow> time \<Rightarrow> machine \<Rightarrow> machine" where
  "Encoder_emulate now entry s =
     (if now - Encoder_stateTime s < PULSE_DURATION then s
      else case Encoder_state s of
             ENC_STATE_1 \<Rightarrow> Encoder_dropSecondPin entry s
           | ENC_STATE_2 \<Rightarrow> Encoder_raiseFirstPin entry s
           | ENC_STATE_3 \<Rightarrow> (Encoder_raiseSecondPin entry s)\<lparr>gestureInProgress := False\<rparr>
           | ENC_STATE_IDLE \<Rightarrow> s)"

section \<open>Gestures\<close>

text \<open>
  \<open>doUsdxReset\<close> blocks in \<open>delay(1)\<close> twice; the model runs it in one piece.
\<close>

definition doUsdxReset :: "time \<Rightarrow> machine \<Rightarrow> machine" where
  "doUsdxReset now s =
     (let s1 = digitalWrite LED_BUILTIN HIGH s;
          s2 = detachInterrupt Pin_LCD_ENABLE s1;
          s3 = s2\<lparr>idxOfNextLcdRead := 0, idxOfNextLcdWrite := 0\<rparr>;
          s4 = Button_startClick Pin_USDX_RESET LOW now s3;
          s5 = Button_endClick s4;
          s6 = attachInterrupt Pin_LCD_ENABLE LcdActivityISR s5
      in digitalWrite LED_BUILTIN LOW s6)"

definition startPushToTalk :: "machine \<Rightarrow> machine" where
  "startPushToTalk s =
     (let s1 = pinMode Pin_PUSH_TO_TALK OUTPUT s;
          s2 = digitalWrite Pin_PUSH_TO_TALK LOW s1
      in s2\<lparr>gestureInProgress := False\<rparr>)"

definition endPushToTalk :: "machine \<Rightarrow> machine" where
  "endPushToTalk s =
     (let s1 = pinMode Pin_PUSH_TO_TALK INPUT s
      in s1\<lparr>gestureInProgress := False\<rparr>)"

definition performInputGesture :: "byte \<Rightarrow> time \<Rightarrow> machine \<Rightarrow> machine" where
  "performInputGesture gesture now s =
     (let s1 = s\<lparr>gestureInProgress := True\<rparr>
      in if gesture = 1 then Button_startClick Pin_LEFT_BUTTON HIGH now s1
         else if gesture = 2 then Button_startClick Pin_RIGHT_BUTTON HIGH now s1
         else if gesture = 3 then Button_startClick Pin_ENCODER_BUTTON HIGH now s1
         else if gesture = 4 then Encoder_startRotation Pin_ROT_A Pin_ROT_B now s1
         else if gesture = 5 then Encoder_startRotation Pin_ROT_B Pin_ROT_A now s1
         else if gesture = 6 then startPushToTalk s1
         else if gesture = 7 then endPushToTalk s1
         else if gesture = 8 then doUsdxReset now s1
         else s1)"

section \<open>The environment: interrupts and serial input\<close>

text \<open>
  What happens outside the main program: a falling edge on a pin (while \<open>PORTD.IN\<close>
  reads \<open>portd\<close>), which runs the handler attached to that pin, if any; a rising edge;
  the arrival of a byte on the serial link.
\<close>

datatype async = Falling pin byte | Rising pin | SerialRx byte

definition interrupt :: "pin \<Rightarrow> byte \<Rightarrow> machine \<Rightarrow> machine" where
  "interrupt p portd s =
     (case interrupts s p of
        None \<Rightarrow> s
      | Some LcdActivityISR \<Rightarrow> lcdActivityISR portd s
      | Some UsdxPowerDownISR \<Rightarrow> usdxPowerDownISR s)"

fun fire :: "async \<Rightarrow> machine \<Rightarrow> machine" where
  "fire (Falling p portd) s = interrupt p portd (s\<lparr>pinInputs := (pinInputs s)(p := LOW)\<rparr>)"
| "fire (Rising p) s = s\<lparr>pinInputs := (pinInputs s)(p := HIGH)\<rparr>"
| "fire (SerialRx b) s = s\<lparr>serialIn := serialIn s @ [b]\<rparr>"

fun fires :: "async list \<Rightarrow> machine \<Rightarrow> machine" where
  "fires [] s = s"
| "fires (a # as) s = fires as (fire a s)"

section \<open>The main program\<close>

text \<open>The four statements of the body of the service loop in \<open>loop()\<close>.\<close>

definition drainStep :: "machine \<Rightarrow> machine" where
  "drainStep s =
     (if idxOfNextLcdRead s \<noteq> idxOfNextLcdWrite s
      then let s1 = Serial_write (lcdBuffer s ! nat (idxOfNextLcdRead s)) s
           in s1\<lparr>idxOfNextLcdRead := (idxOfNextLcdRead s1 + 1) AND BUFFER_INDEX_MASK\<rparr>
      else s)"

definition dispatchStep :: "time \<Rightarrow> machine \<Rightarrow> machine" where
  "dispatchStep now s =
     (if \<not> gestureInProgress s \<and> serialIn s \<noteq> []
      then let gesture = hd (serialIn s);
               s1 = s\<lparr>serialIn := tl (serialIn s)\<rparr>
           in performInputGesture gesture now s1
      else s)"

definition buttonStep :: "time \<Rightarrow> machine \<Rightarrow> machine" where
  "buttonStep now s = (if Button_clickInProgress s then Button_emulate now s else s)"

definition encoderStep :: "time \<Rightarrow> time \<Rightarrow> machine \<Rightarrow> machine" where
  "encoderStep now entry s =
     (if Encoder_rotationInProgress s then Encoder_emulate now entry s else s)"

text \<open>
  One pass through the body of the service loop. The input gives the values that the
  calls of \<open>millis()\<close> return and the outside events that happen before each statement
  and before the loop condition is evaluated again.
\<close>

record iteration =
  beforeDrain :: "async list"
  beforeDispatch :: "async list"
  tGesture :: time
  beforeButton :: "async list"
  tButton :: time
  beforeEncoder :: "async list"
  tEncoder :: time
  tEncoderEntry :: time
  beforeGuard :: "async list"

definition serviceIteration :: "iteration \<Rightarrow> machine \<Rightarrow> machine" where
  "serviceIteration i s =
     (let s1 = drainStep (fires (beforeDrain i) s);
          s2 = dispatchStep (tGesture i) (fires (beforeDispatch i) s1);
          s3 = buttonStep (tButton i) (fires (beforeButton i) s2);
          s4 = encoderStep (tEncoder i) (tEncoderEntry i) (fires (beforeEncoder i) s3)
      in fires (beforeGuard i) s4)"

definition serviceGuard :: "machine \<Rightarrow> bool" where
  "serviceGuard s = (usdxPowerOn s \<or> idxOfNextLcdRead s \<noteq> idxOfNextLcdWrite s)"

text \<open>
  The service loop can run for ever. It is given the inputs of finitely many passes; the
  result is \<open>None\<close> when the loop is still running after them.
\<close>

fun serviceLoop :: "iteration list \<Rightarrow> machine \<Rightarrow> machine option" where
  "serviceLoop [] s = (if serviceGuard s then None else Some s)"
| "serviceLoop (i # is) s =
     (if serviceGuard s then serviceLoop is (serviceIteration i s) else Some s)"

text \<open>
  The busy wait \<open>while (digitalRead(Pin::LCD_POWER) == LOW);\<close> with the outside events
  between two polls; \<open>None\<close> when the pin is still low after them. A call of
  \<open>delay()\<close> only lets time pass and has no step of its own.
\<close>

fun busyWait :: "async list list \<Rightarrow> machine \<Rightarrow> machine option" where
  "busyWait [] s = (if digitalRead s Pin_LCD_POWER = LOW then None else Some s)"
| "busyWait (as # ass) s =
     (if digitalRead s Pin_LCD_POWER = LOW then busyWait ass (fires as s) else Some s)"

definition loop_powerUp :: "async list list \<Rightarrow> machine \<Rightarrow> machine option" where
  "loop_powerUp polls s =
     (if digitalRead s Pin_LCD_POWER = LOW
      then case busyWait polls (digitalWrite LED_BUILTIN HIGH s) of
             None \<Rightarrow> None
           | Some s1 \<Rightarrow> Some (digitalWrite LED_BUILTIN LOW (sendControlMessage USDX_POWERED_UP s1))
      else Some s)"

definition loop_arm :: "machine \<Rightarrow> machine" where
  "loop_arm s =
     (let s1 = s\<lparr>usdxPowerOn := True\<rparr>;
          s2 = attachInterrupt Pin_LCD_ENABLE LcdActivityISR s1
      in attachInterrupt Pin_LCD_POWER UsdxPowerDownISR s2)"

definition loop_disarm :: "machine \<Rightarrow> machine" where
  "loop_disarm s = detachInterrupt Pin_LCD_ENABLE (detachInterrupt Pin_LCD_POWER s)"

definition loop_powerDown :: "machine \<Rightarrow> machine" where
  "loop_powerDown s = sendControlMessage USDX_POWERED_DOWN (loop_disarm s)"

text \<open>
  One call of \<open>loop()\<close>, given the outside events of the busy wait and the inputs of the
  passes of the service loop. The two entry points of the sketch are named
  \<open>sketch_setup\<close> and \<open>sketch_loop\<close> here. When \<open>sketch_loop\<close> has returned, the Arduino
  core calls it again.
\<close>

record loop_input =
  polls :: "async list list"
  passes :: "iteration list"

definition sketch_loop :: "loop_input \<Rightarrow> machine \<Rightarrow> machine option" where
  "sketch_loop inp s =
     (case loop_powerUp (polls inp) s of
        None \<Rightarrow> None
      | Some s1 \<Rightarrow>
          (case serviceLoop (passes inp) (loop_arm s1) of
             None \<Rightarrow> None
           | Some s2 \<Rightarrow> Some (loop_powerDown s2)))"

section \<open>Start-up\<close>

text \<open>
  The machine after reset, before \<open>setup()\<close>: the globals as initialised by the sketch
  (\<open>millis()\<close> is 0 when \<open>Encoder::stateTime\<close> is initialised), every pin an input with
  its latch low, no handler attached.
\<close>

definition powerOnReset :: machine where
  "powerOnReset =
     \<lparr> usdxPowerOn = False,
       lcdBuffer = replicate 1024 0,
       idxOfNextLcdWrite = 0,
       idxOfNextLcdRead = 0,
       gestureInProgress = False,
       Button_timeOfClickStart = 0,
       Button_pinOfButtonClicked = 0,
       Encoder_stateTime = 0,
       Encoder_state = ENC_STATE_IDLE,
       Encoder_firstPin = 0,
       Encoder_secondPin = 0,
       pinModes = (\<lambda>_. INPUT),
       pinLevels = (\<lambda>_. LOW),
       pinInputs = (\<lambda>_. LOW),
       interrupts = (\<lambda>_. None),
       serialOut = [],
       serialIn = [] \<rparr>"

fun flashLed :: "nat \<Rightarrow> machine \<Rightarrow> machine" where
  "flashLed 0 s = s"
| "flashLed (Suc n) s = flashLed n (digitalWrite LED_BUILTIN LOW (digitalWrite LED_BUILTIN HIGH s))"

definition sketch_setup :: "machine \<Rightarrow> machine" where
  "sketch_setup s =
     (let s1 = pinMode Pin_RIGHT_BUTTON INPUT s;
          s2 = pinMode Pin_LEFT_BUTTON INPUT s1;
          s3 = pinMode Pin_ENCODER_BUTTON INPUT s2;
          s4 = pinMode Pin_ROT_A INPUT s3;
          s5 = pinMode Pin_ROT_B INPUT s4;
          s6 = pinMode Pin_LCD_ENABLE INPUT_PULLUP s5;
          s7 = pinMode Pin_LCD_POWER INPUT_PULLDOWN s6;
          s8 = pinMode Pin_PUSH_TO_TALK INPUT s7;
          s9 = pinMode Pin_USDX_RESET OUTPUT s8;
          s10 = digitalWrite LED_BUILTIN LOW s9;
          s11 = pinMode LED_BUILTIN OUTPUT s10;
          s12 = digitalWrite LED_BUILTIN LOW s11
      in flashLed 9 s12)"

definition booted :: machine where
  "booted = sketch_setup powerOnReset"

section \<open>Reachable states\<close>

text \<open>
  The steps of the main program and the outside events, in any order. Every execution
  of the sketch is such a sequence, so what holds after every sequence holds at every
  instant of every execution.
\<close>

datatype event =
    Async async
  | Drain
  | Dispatch time
  | ButtonTick time
  | EncoderTick time time
  | Led bool
  | Announce ctrl_msg_t
  | Arm
  | Disarm

fun step :: "event \<Rightarrow> machine \<Rightarrow> machine" where
  "step (Async a) s = fire a s"
| "step Drain s = drainStep s"
| "step (Dispatch now) s = dispatchStep now s"
| "step (ButtonTick now) s = buttonStep now s"
| "step (EncoderTick now entry) s = encoderStep now entry s"
| "step (Led v) s = digitalWrite LED_BUILTIN v s"
| "step (Announce msg) s = sendControlMessage msg s"
| "step Arm s = loop_arm s"
| "step Disarm s = loop_disarm s"

fun run :: "event list \<Rightarrow> machine \<Rightarrow> machine" where
  "run [] s = s"
| "run (e # es) s = run es (step e s)"

section \<open>The wire format as the specification words it\<close>

text \<open>
  The specification's formulas for the two bytes of a control message, on the 8-bit
  value itself.
\<close>

definition spec_byte1 :: "byte \<Rightarrow> byte" where
  "spec_byte1 v = drop_bit 2 (v AND 0x80) OR drop_bit 4 (v AND 0x70)"

definition spec_byte2 :: "byte \<Rightarrow> byte" where
  "spec_byte2 v = push_bit 2 (v AND 0x08) OR (v AND 0x07)"

text \<open>
  Modelled from the spec: the receiving side is not part of the sketch. A byte on the wire
  is \<open>[0 0 B3 RS 0 B2 B1 B0]\<close>; the decoder takes the nibble \<open>B3 B2 B1 B0\<close> out of each
  byte and puts the first nibble above the second. A "set DDRAM address" command
  is the byte \<open>1 A6 .. A0\<close>.
\<close>

definition decodeNibble :: "byte \<Rightarrow> byte" where
  "decodeNibble b = drop_bit 2 (b AND 0x20) OR (b AND 0x07)"

definition decodeFrame :: "byte \<Rightarrow> byte \<Rightarrow> byte" where
  "decodeFrame b1 b2 = push_bit 4 (decodeNibble b1) OR decodeNibble b2"

definition registerSelect :: "byte \<Rightarrow> bool" where
  "registerSelect b = bit b 4"

definition setDdramAddress :: "byte \<Rightarrow> byte" where
  "setDdramAddress a = 0x80 OR a"

definition ddramAddress :: "byte \<Rightarrow> byte" where
  "ddramAddress cmd = cmd AND 0x7F"

section \<open>Predicates and inputs used in the statements\<close>

text \<open>Both buffer indices are valid positions of the 1024-byte buffer.\<close>

definition idx_ok :: "machine \<Rightarrow> bool" where
  "idx_ok s =
     (0 \<le> idxOfNextLcdWrite s \<and> idxOfNextLcdWrite s \<le> BUFFER_INDEX_MASK
      \<and> 0 \<le> idxOfNextLcdRead s \<and> idxOfNextLcdRead s \<le> BUFFER_INDEX_MASK
      \<and> int (length (lcdBuffer s)) = BUFFER_SIZE)"

text \<open>
  The two emulators are never active together, and \<open>gestureInProgress\<close> is set
  whenever one of them is active.
\<close>

definition emulators_exclusive :: "machine \<Rightarrow> bool" where
  "emulators_exclusive s =
     (\<not> (Button_clickInProgress s \<and> Encoder_rotationInProgress s)
      \<and> (Button_clickInProgress s \<or> Encoder_rotationInProgress s \<longrightarrow> gestureInProgress s))"

text \<open>The flag is set although neither emulator is active to clear it.\<close>

definition dispatcher_locked :: "machine \<Rightarrow> bool" where
  "dispatcher_locked s =
     (gestureInProgress s \<and> \<not> Button_clickInProgress s \<and> \<not> Encoder_rotationInProgress s)"

text \<open>Push-to-talk is engaged while its pin is an output holding the line low.\<close>

definition pushToTalkEngaged :: "machine \<Rightarrow> bool" where
  "pushToTalkEngaged s = (pinModes s Pin_PUSH_TO_TALK = OUTPUT \<and> pinLevels s Pin_PUSH_TO_TALK = LOW)"

text \<open>
  A pass of the service loop during which nothing happens outside and every call of
  \<open>millis()\<close> returns \<open>t\<close>.
\<close>

definition quietPass :: "time \<Rightarrow> iteration" where
  "quietPass t =
     \<lparr> beforeDrain = [], beforeDispatch = [], tGesture = t, beforeButton = [], tButton = t,
       beforeEncoder = [], tEncoder = t, tEncoderEntry = t, beforeGuard = [] \<rparr>"

text \<open>The steps and events of one pass of the service loop, in program order.\<close>

definition passEvents :: "iteration \<Rightarrow> event list" where
  "passEvents i =
     map Async (beforeDrain i) @ [Drain] @
     map Async (beforeDispatch i) @ [Dispatch (tGesture i)] @
     map Async (beforeButton i) @ [ButtonTick (tButton i)] @
     map Async (beforeEncoder i) @ [EncoderTick (tEncoder i) (tEncoderEntry i)] @
     map Async (beforeGuard i)"

text \<open>The machine after the given passes of the service loop.\<close>

fun afterPasses :: "iteration list \<Rightarrow> machine \<Rightarrow> machine" where
  "afterPasses [] s = s"
| "afterPasses (i # is) s = afterPasses is (serviceIteration i s)"

text \<open>
  One power cycle of the host: power comes up during the busy wait, one byte 0x41 is
  captured during the first pass, and power goes down at the end of the second.
\<close>

definition powerCycle :: loop_input where
  "powerCycle =
     \<lparr> polls = [[Rising Pin_LCD_POWER]],
       passes = [(quietPass 0)\<lparr>beforeDrain := [Falling Pin_LCD_ENABLE 0x41]\<rparr>,
                 (quietPass 1)\<lparr>beforeGuard := [Falling Pin_LCD_POWER 0]\<rparr>] \<rparr>"

text \<open>The left button was clicked right after start-up, when \<open>millis()\<close> was 0.\<close>

definition leftClickAt0 :: machine where
  "leftClickAt0 = performInputGesture 1 0 booted"

text \<open>
  The machine before and after each of a series of encoder steps of the service loop;
  each step is given the two values its calls of \<open>millis()\<close> return.
\<close>

fun encoderTrace :: "(time \<times> time) list \<Rightarrow> machine \<Rightarrow> machine list" where
  "encoderTrace [] s = [s]"
| "encoderTrace (t # ts) s = s # encoderTrace ts (encoderStep (fst t) (snd t) s)"

text \<open>The specification's transition table of the Encoder Emulator.\<close>

fun nextPhase :: "state_t \<Rightarrow> state_t" where
  "nextPhase ENC_STATE_IDLE = ENC_STATE_IDLE"
| "nextPhase ENC_STATE_1 = ENC_STATE_2"
| "nextPhase ENC_STATE_2 = ENC_STATE_3"
| "nextPhase ENC_STATE_3 = ENC_STATE_IDLE"

fun phasesFrom :: "state_t \<Rightarrow> state_t list" where
  "phasesFrom ENC_STATE_IDLE = [ENC_STATE_IDLE]"
| "phasesFrom ENC_STATE_1 = [ENC_STATE_1, ENC_STATE_2, ENC_STATE_3, ENC_STATE_IDLE]"
| "phasesFrom ENC_STATE_2 = [ENC_STATE_2, ENC_STATE_3, ENC_STATE_IDLE]"
| "phasesFrom ENC_STATE_3 = [ENC_STATE_3, ENC_STATE_IDLE]"

text \<open>A pin drives high when it is an output and its latch is high.\<close>

definition drivesHigh :: "machine \<Rightarrow> pin \<Rightarrow> bool" where
  "drivesHigh s p = (pinModes s p = OUTPUT \<and> pinLevels s p = HIGH)"

text \<open>
  \<open>rotationPins s0 a b u\<close>: in \<open>u\<close> a rotation with first pin \<open>a\<close> and second pin \<open>b\<close>,
  started in \<open>s0\<close>, has touched no other pin and no latch, drives neither pin high, and
  the directions of the two pins are those of its phase.
\<close>

definition rotationPins :: "machine \<Rightarrow> pin \<Rightarrow> pin \<Rightarrow> machine \<Rightarrow> bool" where
  "rotationPins s0 a b u =
     (Encoder_firstPin u = a \<and> Encoder_secondPin u = b
      \<and> (\<forall>p. p \<noteq> a \<and> p \<noteq> b \<longrightarrow> pinModes u p = pinModes s0 p)
      \<and> pinLevels u = pinLevels s0
      \<and> \<not> drivesHigh u a \<and> \<not> drivesHigh u b
      \<and> (case Encoder_state u of
            ENC_STATE_1 \<Rightarrow> pinModes u a = OUTPUT \<and> pinModes u b = pinModes s0 b
          | ENC_STATE_2 \<Rightarrow> pinModes u a = OUTPUT \<and> pinModes u b = OUTPUT
          | ENC_STATE_3 \<Rightarrow> pinModes u a = INPUT \<and> pinModes u b = OUTPUT
          | ENC_STATE_IDLE \<Rightarrow> pinModes u a = INPUT \<and> pinModes u b = INPUT
                \<and> \<not> gestureInProgress u))"

text \<open>
  The latches of the two encoder pins are low and the Button Emulator is not on one of
  them.
\<close>

definition encoder_latches_low :: "machine \<Rightarrow> bool" where
  "encoder_latches_low s =
     (Button_pinOfButtonClicked s \<noteq> Pin_ROT_A \<and> Button_pinOfButtonClicked s \<noteq> Pin_ROT_B
      \<and> \<not> pinLevels s Pin_ROT_A \<and> \<not> pinLevels s Pin_ROT_B)"

text \<open>Readings of \<open>millis()\<close> for six encoder steps after a rotation started at 0.\<close>

definition clockwiseTicks :: "(time \<times> time) list" where
  "clockwiseTicks = [(4, 4), (5, 5), (7, 7), (10, 10), (15, 15), (30, 30)]"

text \<open>
  The bytes captured and not yet sent: the buffer from the read index up to the write
  index, around the end of the buffer.
\<close>

definition unread :: "machine \<Rightarrow> byte list" where
  "unread s =
     map (\<lambda>k. lcdBuffer s ! nat ((idxOfNextLcdRead s + int k) mod BUFFER_SIZE))
       [0 ..< nat ((idxOfNextLcdWrite s - idxOfNextLcdRead s) mod BUFFER_SIZE)]"

text \<open>
  The two operations on the buffer, the capture handler and the drain of the main loop,
  in any order; the bytes a series of them captures; and whether the series, started
  with \<open>n\<close> unread bytes, never appends to a buffer that holds 1023 unread bytes.
\<close>

datatype buffer_op = Capture byte | Deliver

fun bufferStep :: "buffer_op \<Rightarrow> machine \<Rightarrow> machine" where
  "bufferStep (Capture portd) s = lcdActivityISR portd s"
| "bufferStep Deliver s = drainStep s"

fun bufferRun :: "buffer_op list \<Rightarrow> machine \<Rightarrow> machine" where
  "bufferRun [] s = s"
| "bufferRun (x # xs) s = bufferRun xs (bufferStep x s)"

fun captured :: "buffer_op list \<Rightarrow> byte list" where
  "captured [] = []"
| "captured (Capture portd # xs) = portd # captured xs"
| "captured (Deliver # xs) = captured xs"

fun fits :: "nat \<Rightarrow> buffer_op list \<Rightarrow> bool" where
  "fits n [] = True"
| "fits n (Capture portd # xs) = (n < 1023 \<and> fits (Suc n) xs)"
| "fits n (Deliver # xs) = fits (n - 1) xs"

section \<open>Control messages: the two bytes\<close>

lemma all_bytes: "(\<forall>v::byte. P v) = list_all P Enum.enum"
  by (simp add: list_all_iff enum_UNIV)

lemma codec_all_bytes:
  "\<forall>v. bits1 v = spec_byte1 v \<and> bits2 v = spec_byte2 v \<and> decodeFrame (bits1 v) (bits2 v) = v"
  unfolding all_bytes by code_simp

lemma bits1_spec: "bits1 v = spec_byte1 v"
  using codec_all_bytes by blast

lemma bits2_spec: "bits2 v = spec_byte2 v"
  using codec_all_bytes by blast

lemma decode_encode: "decodeFrame (bits1 v) (bits2 v) = v"
  using codec_all_bytes by blast

lemma sendControlMessage_serialOut:
  "sendControlMessage msg s =
     s\<lparr>serialOut := serialOut s @ [bits1 (ctrl_msg_value msg), bits2 (ctrl_msg_value msg)]\<rparr>"
  by (simp add: sendControlMessage_def Serial_write_def Let_def)

text \<open>
  C3. \<open>sendControlMessage\<close>, for PoweredUp (0xFF) and for PoweredDown (0xFE), appends
  exactly two bytes to the serial output and changes nothing else; the bytes are the
  ones the specification's formulas give, and in both the upper two bits and the
  register-select bit (bit 4) are zero.
\<close>

theorem sendControlMessage_two_bytes:
  "sendControlMessage msg s =
     s\<lparr>serialOut := serialOut s @
          [spec_byte1 (ctrl_msg_value msg), spec_byte2 (ctrl_msg_value msg)]\<rparr>
   \<and> ctrl_msg_value USDX_POWERED_UP = 0xFF \<and> ctrl_msg_value USDX_POWERED_DOWN = 0xFE
   \<and> spec_byte1 (ctrl_msg_value msg) AND 0xC0 = 0
   \<and> spec_byte2 (ctrl_msg_value msg) AND 0xC0 = 0
   \<and> \<not> registerSelect (spec_byte1 (ctrl_msg_value msg))
   \<and> \<not> registerSelect (spec_byte2 (ctrl_msg_value msg))"
proof -
  have frame: "sendControlMessage msg s =
     s\<lparr>serialOut := serialOut s @
          [spec_byte1 (ctrl_msg_value msg), spec_byte2 (ctrl_msg_value msg)]\<rparr>"
    by (simp add: sendControlMessage_serialOut bits1_spec bits2_spec)
  have zeros: "spec_byte1 (ctrl_msg_value msg) AND 0xC0 = 0
      \<and> spec_byte2 (ctrl_msg_value msg) AND 0xC0 = 0
      \<and> \<not> registerSelect (spec_byte1 (ctrl_msg_value msg))
      \<and> \<not> registerSelect (spec_byte2 (ctrl_msg_value msg))"
    by (cases msg) (simp_all add: spec_byte1_def spec_byte2_def registerSelect_def)
  from frame zeros show ?thesis by simp
qed

text \<open>
  C4. The bytes that \<open>sendControlMessage\<close> appends depend on the message only, not on
  the machine; decoding the PoweredUp frame gives address 127 and the PoweredDown frame
  address 126; and the frame of a "set DDRAM address" command for an address in
  0..103 is neither of the two.
\<close>

theorem control_frames_reserved:
  "drop (length (serialOut s)) (serialOut (sendControlMessage msg s)) =
     drop (length (serialOut s')) (serialOut (sendControlMessage msg s'))
   \<and> ddramAddress (decodeFrame (bits1 (ctrl_msg_value USDX_POWERED_UP))
                                (bits2 (ctrl_msg_value USDX_POWERED_UP))) = 127
   \<and> ddramAddress (decodeFrame (bits1 (ctrl_msg_value USDX_POWERED_DOWN))
                                (bits2 (ctrl_msg_value USDX_POWERED_DOWN))) = 126
   \<and> (a \<le> 103 \<longrightarrow>
        (bits1 (setDdramAddress a), bits2 (setDdramAddress a)) \<noteq>
        (bits1 (ctrl_msg_value msg), bits2 (ctrl_msg_value msg)))"
proof -
  have det: "drop (length (serialOut s)) (serialOut (sendControlMessage msg s)) =
     drop (length (serialOut s')) (serialOut (sendControlMessage msg s'))"
    by (simp add: sendControlMessage_serialOut)
  have up: "ddramAddress (decodeFrame (bits1 (ctrl_msg_value USDX_POWERED_UP))
                                (bits2 (ctrl_msg_value USDX_POWERED_UP))) = 127"
    by (simp add: decode_encode ddramAddress_def)
  have down: "ddramAddress (decodeFrame (bits1 (ctrl_msg_value USDX_POWERED_DOWN))
                                (bits2 (ctrl_msg_value USDX_POWERED_DOWN))) = 126"
    by (simp add: decode_encode ddramAddress_def)
  have apart: "(bits1 (setDdramAddress a), bits2 (setDdramAddress a)) \<noteq>
        (bits1 (ctrl_msg_value msg), bits2 (ctrl_msg_value msg))" if a: "a \<le> 103"
  proof
    assume "(bits1 (setDdramAddress a), bits2 (setDdramAddress a)) =
        (bits1 (ctrl_msg_value msg), bits2 (ctrl_msg_value msg))"
    then have "decodeFrame (bits1 (setDdramAddress a)) (bits2 (setDdramAddress a)) =
        decodeFrame (bits1 (ctrl_msg_value msg)) (bits2 (ctrl_msg_value msg))"
      by simp
    then have same: "setDdramAddress a = ctrl_msg_value msg"
      by (simp only: decode_encode)
    have small: "a AND 0x7F = a"
    proof -
      from a have "uint a \<le> 103" by (simp add: word_le_def)
      then have "uint a < 2 ^ 7" by simp
      then have "a AND mask 7 = a" by (simp only: mask_eq_iff)
      then show ?thesis by (simp add: mask_eq_exp_minus_1)
    qed
    have "ddramAddress (setDdramAddress a) = a"
      using small by (simp add: ddramAddress_def setDdramAddress_def bit.conj_disj_distrib2)
    with same have "a = ddramAddress (ctrl_msg_value msg)"
      by simp
    then have "a = 127 \<or> a = 126"
      by (cases msg) (simp_all add: ddramAddress_def)
    with a show False by auto
  qed
  from det up down apart show ?thesis by blast
qed

theorem control_frames_reserved_witness:
  "(0::byte) \<le> 103 \<and>
     (bits1 (setDdramAddress 0), bits2 (setDdramAddress 0)) \<noteq>
     (bits1 (ctrl_msg_value USDX_POWERED_UP), bits2 (ctrl_msg_value USDX_POWERED_UP))"
  using control_frames_reserved [of powerOnReset USDX_POWERED_UP powerOnReset 0] by simp

section \<open>Push-to-talk\<close>

text \<open>
  C10. \<open>startPushToTalk\<close> and \<open>endPushToTalk\<close> are idempotent: a second call in
  succession leaves the whole machine as the first call left it; and after each of them
  \<open>gestureInProgress\<close> is false.
\<close>

theorem pushToTalk_idempotent:
  "startPushToTalk (startPushToTalk s) = startPushToTalk s
   \<and> endPushToTalk (endPushToTalk s) = endPushToTalk s
   \<and> \<not> gestureInProgress (startPushToTalk s)
   \<and> \<not> gestureInProgress (endPushToTalk s)"
  by (simp add: startPushToTalk_def endPushToTalk_def pinMode_def digitalWrite_def)

section \<open>Unfolding rules\<close>

lemmas prim_defs = pinMode_def digitalWrite_def digitalRead_def attachInterrupt_def
  detachInterrupt_def Serial_write_def

lemmas emu_defs = Button_clickInProgress_def Button_startClick_def Button_endClick_def
  Button_emulate_def Encoder_rotationInProgress_def Encoder_dropFirstPin_def
  Encoder_dropSecondPin_def Encoder_raiseFirstPin_def Encoder_raiseSecondPin_def
  Encoder_startRotation_def Encoder_emulate_def

lemmas gesture_defs = doUsdxReset_def startPushToTalk_def endPushToTalk_def
  performInputGesture_def

section \<open>Every run of the loop is a sequence of steps\<close>

lemma run_append: "run (es @ fs) s = run fs (run es s)"
  by (induction es arbitrary: s) simp_all

lemma fires_run: "fires as s = run (map Async as) s"
  by (induction as arbitrary: s) simp_all

lemma serviceIteration_run: "serviceIteration i s = run (passEvents i) s"
  by (simp add: serviceIteration_def passEvents_def run_append fires_run Let_def)

lemma serviceLoop_run: "serviceLoop ps s = Some s' \<Longrightarrow> \<exists>es. s' = run es s"
proof (induction ps arbitrary: s)
  case Nil
  then have "s' = run [] s" by (simp split: if_splits)
  then show ?case by blast
next
  case (Cons i ps)
  show ?case
  proof (cases "serviceGuard s")
    case True
    with Cons.prems have "serviceLoop ps (serviceIteration i s) = Some s'" by simp
    from Cons.IH [OF this] obtain es where "s' = run es (serviceIteration i s)" by blast
    then have "s' = run (passEvents i @ es) s" by (simp add: run_append serviceIteration_run)
    then show ?thesis by blast
  next
    case False
    with Cons.prems have "s' = run [] s" by simp
    then show ?thesis by blast
  qed
qed

lemma busyWait_run: "busyWait ws s = Some s' \<Longrightarrow> \<exists>es. s' = run es s"
proof (induction ws arbitrary: s)
  case Nil
  then have "s' = run [] s" by (simp split: if_splits)
  then show ?case by blast
next
  case (Cons w ws)
  show ?case
  proof (cases "digitalRead s Pin_LCD_POWER = LOW")
    case True
    with Cons.prems have "busyWait ws (fires w s) = Some s'" by simp
    from Cons.IH [OF this] obtain es where "s' = run es (fires w s)" by blast
    then have "s' = run (map Async w @ es) s" by (simp add: run_append fires_run)
    then show ?thesis by blast
  next
    case False
    with Cons.prems have "s' = run [] s" by simp
    then show ?thesis by blast
  qed
qed

lemma loop_powerUp_run: "loop_powerUp ws s = Some s' \<Longrightarrow> \<exists>es. s' = run es s"
proof (cases "digitalRead s Pin_LCD_POWER = LOW")
  case True
  assume a: "loop_powerUp ws s = Some s'"
  with True obtain s1 where w: "busyWait ws (digitalWrite LED_BUILTIN HIGH s) = Some s1"
    and s': "s' = digitalWrite LED_BUILTIN LOW (sendControlMessage USDX_POWERED_UP s1)"
    by (auto simp add: loop_powerUp_def split: option.splits)
  from busyWait_run [OF w] obtain es where "s1 = run es (run [Led HIGH] s)" by auto
  with s' have "s' = run ([Led HIGH] @ es @ [Announce USDX_POWERED_UP, Led LOW]) s"
    by (simp add: run_append)
  then show ?thesis by blast
next
  case False
  assume "loop_powerUp ws s = Some s'"
  with False have "s' = run [] s" by (simp add: loop_powerUp_def)
  then show ?thesis by blast
qed

lemma sketch_loop_run: "sketch_loop inp s = Some s' \<Longrightarrow> \<exists>es. s' = run es s"
proof -
  assume a: "sketch_loop inp s = Some s'"
  then obtain s1 s2 where p: "loop_powerUp (polls inp) s = Some s1"
    and l: "serviceLoop (passes inp) (loop_arm s1) = Some s2"
    and d: "s' = loop_powerDown s2"
    by (auto simp add: sketch_loop_def split: option.splits)
  from loop_powerUp_run [OF p] obtain es1 where e1: "s1 = run es1 s" by blast
  from serviceLoop_run [OF l] obtain es2 where e2: "s2 = run es2 (loop_arm s1)" by blast
  have "s' = run (es1 @ [Arm] @ es2 @ [Disarm, Announce USDX_POWERED_DOWN]) s"
    using d e1 e2 by (simp add: run_append loop_powerDown_def)
  then show ?thesis by blast
qed

section \<open>The buffer indices stay in bounds\<close>

lemma mask_range: "0 \<le> (x::int) AND 1023 \<and> x AND 1023 \<le> 1023"
  by simp

lemma idx_isr: "idx_ok s \<Longrightarrow> idx_ok (lcdActivityISR b s)"
  using mask_range [of "idxOfNextLcdWrite s + 1"]
  by (simp add: idx_ok_def lcdActivityISR_def prim_defs Let_def)

lemma idx_drain: "idx_ok s \<Longrightarrow> idx_ok (drainStep s)"
  using mask_range [of "idxOfNextLcdRead s + 1"]
  by (simp add: idx_ok_def drainStep_def prim_defs Let_def)

lemma idx_reset: "int (length (lcdBuffer s)) = BUFFER_SIZE \<Longrightarrow> idx_ok (doUsdxReset now s)"
  by (simp add: idx_ok_def gesture_defs emu_defs prim_defs Let_def)

lemma idx_interrupt: "idx_ok s \<Longrightarrow> idx_ok (interrupt p portd s)"
proof (cases "interrupts s p")
  case None
  assume "idx_ok s"
  then show ?thesis using None by (simp add: interrupt_def)
next
  case (Some h)
  assume ok: "idx_ok s"
  then have "idx_ok (usdxPowerDownISR s)" by (simp add: usdxPowerDownISR_def idx_ok_def)
  then show ?thesis using Some ok by (cases h) (simp_all add: interrupt_def idx_isr)
qed

lemma idx_fire: "idx_ok s \<Longrightarrow> idx_ok (fire a s)"
proof (cases a)
  case (Falling p portd)
  assume "idx_ok s"
  then have "idx_ok (s\<lparr>pinInputs := (pinInputs s)(p := LOW)\<rparr>)"
    by (simp add: idx_ok_def)
  then show ?thesis using Falling by (simp add: idx_interrupt)
next
  case (Rising p)
  assume "idx_ok s"
  then show ?thesis using Rising by (simp add: idx_ok_def)
next
  case (SerialRx b)
  assume "idx_ok s"
  then show ?thesis using SerialRx by (simp add: idx_ok_def)
qed

lemma idx_gesture: "idx_ok s \<Longrightarrow> idx_ok (performInputGesture g now s)"
proof -
  assume ok: "idx_ok s"
  then have len: "int (length (lcdBuffer (s\<lparr>gestureInProgress := True\<rparr>))) = BUFFER_SIZE"
    by (simp add: idx_ok_def)
  have "g = 8 \<or> g \<noteq> 8" by simp
  then show ?thesis
  proof
    assume "g = 8"
    then show ?thesis using idx_reset [OF len, of now]
      by (simp add: performInputGesture_def Let_def)
  next
    assume "g \<noteq> 8"
    then show ?thesis using ok
      by (simp add: idx_ok_def performInputGesture_def startPushToTalk_def endPushToTalk_def
           emu_defs prim_defs Let_def)
  qed
qed

lemma idx_dispatch: "idx_ok s \<Longrightarrow> idx_ok (dispatchStep now s)"
proof -
  assume ok: "idx_ok s"
  then have "idx_ok (s\<lparr>serialIn := tl (serialIn s)\<rparr>)" by (simp add: idx_ok_def)
  then show ?thesis using ok by (simp add: dispatchStep_def Let_def idx_gesture)
qed

lemma idx_button: "idx_ok s \<Longrightarrow> idx_ok (buttonStep now s)"
  by (simp add: idx_ok_def buttonStep_def emu_defs prim_defs Let_def)

lemma idx_encoder: "idx_ok s \<Longrightarrow> idx_ok (encoderStep now entry s)"
  by (simp add: idx_ok_def encoderStep_def emu_defs prim_defs Let_def split: state_t.splits)

lemma idx_step: "idx_ok s \<Longrightarrow> idx_ok (step e s)"
  by (cases e)
     (simp_all add: idx_fire idx_drain idx_dispatch idx_button idx_encoder,
      simp_all add: idx_ok_def prim_defs sendControlMessage_def loop_arm_def loop_disarm_def Let_def)

lemma idx_run: "idx_ok s \<Longrightarrow> idx_ok (run es s)"
  by (induction es arbitrary: s) (simp_all add: idx_step)

lemma flashLed_idx [simp]:
  "idxOfNextLcdWrite (flashLed n s) = idxOfNextLcdWrite s"
  "idxOfNextLcdRead (flashLed n s) = idxOfNextLcdRead s"
  "lcdBuffer (flashLed n s) = lcdBuffer s"
  by (induction n arbitrary: s; simp add: prim_defs)+

lemma idx_booted: "idx_ok booted"
  by (simp add: idx_ok_def booted_def sketch_setup_def powerOnReset_def prim_defs Let_def)

lemma idx_reset': "idx_ok s \<Longrightarrow> idx_ok (doUsdxReset now s)"
  by (rule idx_reset) (simp add: idx_ok_def)

lemma idx_access:
  "idx_ok s \<Longrightarrow> nat (idxOfNextLcdWrite s) < length (lcdBuffer s)
     \<and> nat (idxOfNextLcdRead s) < length (lcdBuffer s)"
  unfolding idx_ok_def by linarith

text \<open>
  C9. In every state the sketch can reach from start-up, both indices are within
  0..1023 and are valid positions of \<open>lcdBuffer\<close>; and each of the three operations
  that assign an index (the capture handler, the drain of the main loop, the reset
  command) leaves both within 0..1023 when they were before.
\<close>

theorem buffer_indices_in_bounds:
  "idx_ok (run es booted)
   \<and> nat (idxOfNextLcdWrite (run es booted)) < length (lcdBuffer (run es booted))
   \<and> nat (idxOfNextLcdRead (run es booted)) < length (lcdBuffer (run es booted))
   \<and> (idx_ok s \<longrightarrow>
        idx_ok (lcdActivityISR portd s) \<and> idx_ok (drainStep s) \<and> idx_ok (doUsdxReset now s))"
  using idx_run [OF idx_booted, of es] idx_access [of "run es booted"]
  by (simp add: idx_isr idx_drain idx_reset')

theorem buffer_indices_in_bounds_witness:
  "idx_ok booted \<and> idx_ok (lcdActivityISR 0x41 booted) \<and> idx_ok (drainStep booted)
   \<and> idx_ok (doUsdxReset 0 booted)"
  using buffer_indices_in_bounds [of "[]" booted "0x41" 0]
  by (simp add: idx_booted)

section \<open>One gesture at a time\<close>

lemma fire_emu [simp]:
  "Button_pinOfButtonClicked (fire a s) = Button_pinOfButtonClicked s"
  "Encoder_state (fire a s) = Encoder_state s"
  "gestureInProgress (fire a s) = gestureInProgress s"
  by (cases a; simp add: interrupt_def lcdActivityISR_def usdxPowerDownISR_def prim_defs Let_def
        split: option.splits isr.splits)+

lemma excl_dispatch: "emulators_exclusive s \<Longrightarrow> emulators_exclusive (dispatchStep now s)"
  by (auto simp add: emulators_exclusive_def dispatchStep_def gesture_defs emu_defs prim_defs Let_def)

lemma excl_button: "emulators_exclusive s \<Longrightarrow> emulators_exclusive (buttonStep now s)"
  by (auto simp add: emulators_exclusive_def buttonStep_def emu_defs prim_defs Let_def)

lemma excl_encoder: "emulators_exclusive s \<Longrightarrow> emulators_exclusive (encoderStep now entry s)"
  by (auto simp add: emulators_exclusive_def encoderStep_def emu_defs prim_defs Let_def
      split: state_t.splits)

lemma excl_step: "emulators_exclusive s \<Longrightarrow> emulators_exclusive (step e s)"
proof (cases e)
  case (Async a)
  assume "emulators_exclusive s"
  then show ?thesis using Async
    by (simp add: emulators_exclusive_def Button_clickInProgress_def Encoder_rotationInProgress_def)
next
  case Drain
  assume "emulators_exclusive s"
  then show ?thesis using Drain
    by (simp add: emulators_exclusive_def drainStep_def emu_defs prim_defs Let_def)
next
  case (Dispatch t)
  assume "emulators_exclusive s"
  then show ?thesis using Dispatch by (simp add: excl_dispatch)
next
  case (ButtonTick t)
  assume "emulators_exclusive s"
  then show ?thesis using ButtonTick by (simp add: excl_button)
next
  case (EncoderTick t t')
  assume "emulators_exclusive s"
  then show ?thesis using EncoderTick by (simp add: excl_encoder)
next
  case (Led v)
  assume "emulators_exclusive s"
  then show ?thesis using Led
    by (simp add: emulators_exclusive_def emu_defs prim_defs)
next
  case (Announce m)
  assume "emulators_exclusive s"
  then show ?thesis using Announce
    by (simp add: emulators_exclusive_def emu_defs prim_defs sendControlMessage_def Let_def)
next
  case Arm
  assume "emulators_exclusive s"
  then show ?thesis using Arm
    by (simp add: emulators_exclusive_def emu_defs prim_defs loop_arm_def Let_def)
next
  case Disarm
  assume "emulators_exclusive s"
  then show ?thesis using Disarm
    by (simp add: emulators_exclusive_def emu_defs prim_defs loop_disarm_def Let_def)
qed

lemma excl_run: "emulators_exclusive s \<Longrightarrow> emulators_exclusive (run es s)"
  by (induction es arbitrary: s) (simp_all add: excl_step)

lemma flashLed_fields [simp]:
  "Button_pinOfButtonClicked (flashLed n s) = Button_pinOfButtonClicked s"
  "Encoder_state (flashLed n s) = Encoder_state s"
  "gestureInProgress (flashLed n s) = gestureInProgress s"
  by (induction n arbitrary: s; simp add: prim_defs)+

lemma excl_booted: "emulators_exclusive booted"
  by (simp add: emulators_exclusive_def booted_def sketch_setup_def powerOnReset_def emu_defs prim_defs Let_def)

text \<open>
  C2, as the code has it. In every reachable state at most one of the two emulators is
  active, and \<open>gestureInProgress\<close> is set while one is; while the flag is set the
  dispatcher step changes nothing, so it takes no byte from the serial link, and when
  the flag is clear it takes exactly the first waiting byte. Push-to-talk is not part
  of the exclusion: \<open>startPushToTalk\<close> clears the flag at once and leaves the line
  held.
\<close>

theorem one_emulator_at_a_time:
  "\<not> (Button_clickInProgress (run es booted) \<and> Encoder_rotationInProgress (run es booted))
   \<and> (Button_clickInProgress (run es booted) \<or> Encoder_rotationInProgress (run es booted)
        \<longrightarrow> gestureInProgress (run es booted))
   \<and> (gestureInProgress s \<longrightarrow> dispatchStep now s = s)
   \<and> (\<not> gestureInProgress s \<and> serialIn s = b # bs \<longrightarrow> serialIn (dispatchStep now s) = bs)"
proof -
  have "emulators_exclusive (run es booted)"
    by (rule excl_run) (rule excl_booted)
  then have inv: "\<not> (Button_clickInProgress (run es booted) \<and> Encoder_rotationInProgress (run es booted))
   \<and> (Button_clickInProgress (run es booted) \<or> Encoder_rotationInProgress (run es booted)
        \<longrightarrow> gestureInProgress (run es booted))"
    by (simp add: emulators_exclusive_def)
  have blocked: "dispatchStep now s = s" if "gestureInProgress s"
    using that by (simp add: dispatchStep_def)
  have taken: "serialIn (dispatchStep now s) = bs" if "\<not> gestureInProgress s" "serialIn s = b # bs"
    using that by (simp add: dispatchStep_def gesture_defs emu_defs prim_defs Let_def)
  from inv blocked taken show ?thesis by blast
qed

theorem one_emulator_at_a_time_witness:
  "Button_clickInProgress (run [Async (SerialRx 1), Dispatch 0] booted)
   \<and> gestureInProgress (run [Async (SerialRx 1), Dispatch 0] booted)
   \<and> dispatchStep 3 (run [Async (SerialRx 1), Dispatch 0] booted)
       = run [Async (SerialRx 1), Dispatch 0] booted
   \<and> \<not> gestureInProgress booted \<and> serialIn (fire (SerialRx 1) booted) = [1]
   \<and> serialIn (dispatchStep 0 (fire (SerialRx 1) booted)) = []"
proof -
  have a: "Button_clickInProgress (run [Async (SerialRx 1), Dispatch 0] booted)"
    by code_simp
  have b: "\<not> gestureInProgress booted \<and> serialIn (fire (SerialRx 1) booted) = [1]"
    by code_simp
  from a b one_emulator_at_a_time [of "[Async (SerialRx 1), Dispatch 0]"
      "run [Async (SerialRx 1), Dispatch 0] booted" 3 1 "[]"]
    one_emulator_at_a_time [of "[]" "fire (SerialRx 1) booted" 0 1 "[]"]
  show ?thesis by simp
qed

text \<open>
  Against C2 as stated: the bytes 6 (push-to-talk start) and 1 (click left button) are
  waiting; after two passes of the service loop push-to-talk is engaged and the Button
  Emulator is active at the same time.
\<close>

theorem push_to_talk_with_click:
  "pushToTalkEngaged
     (serviceIteration (quietPass 1) (serviceIteration (quietPass 0)
        (fires [SerialRx 6, SerialRx 1] (loop_arm booted))))
   \<and> Button_clickInProgress
     (serviceIteration (quietPass 1) (serviceIteration (quietPass 0)
        (fires [SerialRx 6, SerialRx 1] (loop_arm booted))))"
  by code_simp

section \<open>Unknown gesture bytes\<close>

lemma locked_step: "dispatcher_locked s \<Longrightarrow> dispatcher_locked (step e s)"
  by (cases e)
     (simp_all add: dispatcher_locked_def dispatchStep_def buttonStep_def encoderStep_def
        drainStep_def sendControlMessage_def loop_arm_def loop_disarm_def
        Button_clickInProgress_def Encoder_rotationInProgress_def prim_defs Let_def)

lemma locked_run: "dispatcher_locked s \<Longrightarrow> dispatcher_locked (run es s)"
  by (induction es arbitrary: s) (simp_all add: locked_step)

lemma unmatched_gesture:
  "gesture = 0 \<or> gesture > 8 \<Longrightarrow> performInputGesture gesture now s = s\<lparr>gestureInProgress := True\<rparr>"
  by (auto simp add: performInputGesture_def Let_def)

lemma booted_idle: "\<not> gestureInProgress booted \<and> \<not> Button_clickInProgress booted \<and> \<not> Encoder_rotationInProgress booted"
  by (simp add: booted_def sketch_setup_def powerOnReset_def emu_defs prim_defs Let_def)

lemma serialIn_flash [simp]: "serialIn (flashLed n s) = serialIn s"
  by (induction n arbitrary: s; simp add: prim_defs)

lemma booted_serialIn: "serialIn booted = []"
  by (simp add: booted_def sketch_setup_def powerOnReset_def prim_defs Let_def)

text \<open>
  C1 fails on the code. After start-up the byte 0 arrives and the dispatcher reads it:
  \<open>performInputGesture\<close> has set \<open>gestureInProgress\<close> before its \<open>switch\<close>, no case
  matches, and nothing is started that would clear the flag. The state has changed, and
  the flag stays set whatever happens afterwards, so no later gesture byte is read.
\<close>

theorem unknown_gesture_byte_locks_dispatcher:
  "\<not> gestureInProgress booted
   \<and> dispatchStep now (fire (SerialRx 0) booted) = booted\<lparr>gestureInProgress := True\<rparr>
   \<and> dispatchStep now (fire (SerialRx 0) booted) \<noteq> booted
   \<and> (\<forall>es. gestureInProgress (run es (dispatchStep now (fire (SerialRx 0) booted))))"
proof -
  have a: "\<not> gestureInProgress booted" using booted_idle by simp
  have b: "dispatchStep now (fire (SerialRx 0) booted) = booted\<lparr>gestureInProgress := True\<rparr>"
    using a by (simp add: dispatchStep_def unmatched_gesture booted_serialIn Let_def)
  have c: "dispatcher_locked (booted\<lparr>gestureInProgress := True\<rparr>)"
    using booted_idle by (simp add: dispatcher_locked_def emu_defs)
  have d: "gestureInProgress (run es (booted\<lparr>gestureInProgress := True\<rparr>))" for es
    using locked_run [OF c, of es] by (simp add: dispatcher_locked_def)
  have e: "booted\<lparr>gestureInProgress := True\<rparr> \<noteq> booted"
  proof
    assume "booted\<lparr>gestureInProgress := True\<rparr> = booted"
    then have "gestureInProgress (booted\<lparr>gestureInProgress := True\<rparr>) = gestureInProgress booted"
      by simp
    with a show False by simp
  qed
  from a b d e show ?thesis by simp
qed

section \<open>The button click\<close>

lemma endClick_flat:
  "Button_endClick s =
     s\<lparr>pinLevels := (pinLevels s)
          (Button_pinOfButtonClicked s := \<not> digitalRead s (Button_pinOfButtonClicked s)),
       pinModes := (pinModes s)(Button_pinOfButtonClicked s := INPUT),
       Button_timeOfClickStart := 0, Button_pinOfButtonClicked := 0,
       gestureInProgress := False\<rparr>"
  by (simp add: Button_endClick_def pinMode_def digitalWrite_def Let_def)

lemma later_than:
  fixes start now :: time
  assumes "unat start + 5 < 2 ^ 32" and "start \<le> now"
  shows "(start + 5 < now) = (5 < now - start)"
proof -
  have a: "unat (start + 5) = unat start + 5"
    using assms(1) by (simp add: unat_word_ariths)
  have b: "unat (now - start) = unat now - unat start"
    using assms(2) by (simp add: unat_sub)
  have c: "unat start \<le> unat now"
    using assms(2) by (simp add: word_le_nat_alt)
  show ?thesis
    using a b c by (simp add: word_less_nat_alt) linarith
qed

lemma endClick_changes: "Button_clickInProgress s \<Longrightarrow> Button_endClick s \<noteq> s"
proof
  assume a: "Button_clickInProgress s" and "Button_endClick s = s"
  then have "Button_pinOfButtonClicked (Button_endClick s) = Button_pinOfButtonClicked s"
    by simp
  with a show False by (simp add: endClick_flat Button_clickInProgress_def)
qed

text \<open>
  C7, as the code has it. While a click is active, and as long as neither
  \<open>timeOfClickStart + 5\<close> nor the clock has wrapped around since the click started,
  \<open>Button::emulate\<close> performs \<open>endClick\<close> if and only if strictly more than 5 ms
  have passed since \<open>startClick\<close>. \<open>endClick\<close> writes to the active pin the opposite
  of the level read from it, makes it an input, sets pin and start time back to 0 and
  clears \<open>gestureInProgress\<close>.
\<close>

theorem button_click_release:
  "(Button_clickInProgress s \<and> unat (Button_timeOfClickStart s) + 5 < 2 ^ 32
      \<and> Button_timeOfClickStart s \<le> now \<longrightarrow>
        Button_emulate now s =
          (if PULSE_DURATION < now - Button_timeOfClickStart s then Button_endClick s else s)
        \<and> (Button_emulate now s = Button_endClick s)
            = (PULSE_DURATION < now - Button_timeOfClickStart s))
   \<and> Button_endClick s =
       s\<lparr>pinLevels := (pinLevels s)
            (Button_pinOfButtonClicked s := \<not> digitalRead s (Button_pinOfButtonClicked s)),
         pinModes := (pinModes s)(Button_pinOfButtonClicked s := INPUT),
         Button_timeOfClickStart := 0, Button_pinOfButtonClicked := 0,
         gestureInProgress := False\<rparr>
   \<and> \<not> Button_clickInProgress (Button_endClick s)
   \<and> \<not> gestureInProgress (Button_endClick s)"
proof -
  have timed: "Button_emulate now s =
          (if PULSE_DURATION < now - Button_timeOfClickStart s then Button_endClick s else s)
        \<and> (Button_emulate now s = Button_endClick s)
            = (PULSE_DURATION < now - Button_timeOfClickStart s)"
    if active: "Button_clickInProgress s"
      and nowrap: "unat (Button_timeOfClickStart s) + 5 < 2 ^ 32"
      and later: "Button_timeOfClickStart s \<le> now"
  proof -
    have step: "Button_emulate now s =
          (if PULSE_DURATION < now - Button_timeOfClickStart s then Button_endClick s else s)"
      using active later_than [OF nowrap later]
      by (simp add: Button_emulate_def Let_def)
    with endClick_changes [OF active] show ?thesis by auto
  qed
  have idle: "\<not> Button_clickInProgress (Button_endClick s) \<and> \<not> gestureInProgress (Button_endClick s)"
    by (simp add: endClick_flat Button_clickInProgress_def)
  from timed idle endClick_flat [of s] show ?thesis by blast
qed

lemma leftClick_facts:
  "Button_clickInProgress leftClickAt0" "Button_timeOfClickStart leftClickAt0 = 0"
  "Button_pinOfButtonClicked leftClickAt0 = Pin_LEFT_BUTTON"
  by (simp_all add: leftClickAt0_def performInputGesture_def Button_startClick_def
      Button_clickInProgress_def prim_defs Let_def)

theorem button_click_release_witness:
  "Button_clickInProgress leftClickAt0
   \<and> Button_emulate 5 leftClickAt0 = leftClickAt0
   \<and> Button_emulate 6 leftClickAt0 = Button_endClick leftClickAt0
   \<and> pinModes (Button_emulate 6 leftClickAt0) Pin_LEFT_BUTTON = INPUT
   \<and> pinLevels (Button_emulate 6 leftClickAt0) Pin_LEFT_BUTTON = LOW"
proof -
  have lvl: "pinLevels leftClickAt0 Pin_LEFT_BUTTON = HIGH \<and> pinModes leftClickAt0 Pin_LEFT_BUTTON = OUTPUT"
    by (simp add: leftClickAt0_def performInputGesture_def Button_startClick_def prim_defs Let_def)
  have pre: "unat (Button_timeOfClickStart leftClickAt0) + 5 < 2 ^ 32"
    "Button_timeOfClickStart leftClickAt0 \<le> 5" "Button_timeOfClickStart leftClickAt0 \<le> 6"
    by (simp_all add: leftClick_facts)
  from button_click_release [of leftClickAt0 5] button_click_release [of leftClickAt0 6]
    pre leftClick_facts lvl
  show ?thesis by (simp add: digitalRead_def)
qed

text \<open>
  Against C7 as stated: the left button was clicked at time 0; at time 5 the elapsed
  time is 5 ms, which is at least the pulse duration, and \<open>Button::emulate\<close> leaves the
  click in progress.
\<close>

theorem click_still_held_at_5ms:
  "Button_clickInProgress leftClickAt0
   \<and> PULSE_DURATION \<le> 5 - Button_timeOfClickStart leftClickAt0
   \<and> Button_emulate 5 leftClickAt0 = leftClickAt0
   \<and> Button_emulate 5 leftClickAt0 \<noteq> Button_endClick leftClickAt0"
proof -
  have a: "Button_emulate 5 leftClickAt0 = leftClickAt0"
    by (simp add: Button_emulate_def leftClick_facts Let_def)
  from a leftClick_facts endClick_changes [of leftClickAt0] show ?thesis by simp
qed

section \<open>The service loop and power-down\<close>

lemma serviceLoop_Some:
  "serviceLoop ps s = Some s' \<Longrightarrow>
     \<exists>n\<le>length ps. s' = afterPasses (take n ps) s
        \<and> (\<forall>k<n. serviceGuard (afterPasses (take k ps) s)) \<and> \<not> serviceGuard s'"
proof (induction ps arbitrary: s)
  case Nil
  then show ?case by (simp split: if_splits)
next
  case (Cons i ps)
  show ?case
  proof (cases "serviceGuard s")
    case True
    with Cons.prems have "serviceLoop ps (serviceIteration i s) = Some s'" by simp
    from Cons.IH [OF this] obtain n where n: "n \<le> length ps"
      "s' = afterPasses (take n ps) (serviceIteration i s)"
      "\<forall>k<n. serviceGuard (afterPasses (take k ps) (serviceIteration i s))"
      "\<not> serviceGuard s'" by blast
    have "\<forall>k<Suc n. serviceGuard (afterPasses (take k (i # ps)) s)"
    proof (intro allI impI)
      fix k assume "k < Suc n"
      then show "serviceGuard (afterPasses (take k (i # ps)) s)"
        using True n(3) by (cases k) simp_all
    qed
    with n have "Suc n \<le> length (i # ps) \<and> s' = afterPasses (take (Suc n) (i # ps)) s
        \<and> (\<forall>k<Suc n. serviceGuard (afterPasses (take k (i # ps)) s)) \<and> \<not> serviceGuard s'"
      by simp
    then show ?thesis by blast
  next
    case False
    with Cons.prems have "s' = s" by simp
    with False have "0 \<le> length (i # ps) \<and> s' = afterPasses (take 0 (i # ps)) s
        \<and> (\<forall>k<0. serviceGuard (afterPasses (take k (i # ps)) s)) \<and> \<not> serviceGuard s'"
      by simp
    then show ?thesis by blast
  qed
qed

lemma serviceLoop_None:
  "serviceLoop ps s = None \<Longrightarrow> \<forall>k\<le>length ps. serviceGuard (afterPasses (take k ps) s)"
proof (induction ps arbitrary: s)
  case Nil
  then show ?case by (simp split: if_splits)
next
  case (Cons i ps)
  from Cons.prems have g: "serviceGuard s" by (simp split: if_splits)
  with Cons.prems have "serviceLoop ps (serviceIteration i s) = None" by simp
  from Cons.IH [OF this]
  have ih: "\<forall>k\<le>length ps. serviceGuard (afterPasses (take k ps) (serviceIteration i s))" .
  show ?case
  proof (intro allI impI)
    fix k assume "k \<le> length (i # ps)"
    then show "serviceGuard (afterPasses (take k (i # ps)) s)"
      using g ih by (cases k) simp_all
  qed
qed

lemma powerDown_effect:
  "interrupts (loop_disarm s) Pin_LCD_POWER = None
   \<and> interrupts (loop_disarm s) Pin_LCD_ENABLE = None
   \<and> serialOut (loop_disarm s) = serialOut s
   \<and> loop_powerDown s = sendControlMessage USDX_POWERED_DOWN (loop_disarm s)
   \<and> serialOut (loop_powerDown s) = serialOut s @ [0x27, 0x26]
   \<and> interrupts (loop_powerDown s) Pin_LCD_POWER = None
   \<and> interrupts (loop_powerDown s) Pin_LCD_ENABLE = None"
  by (simp add: loop_disarm_def loop_powerDown_def sendControlMessage_def bits1_def bits2_def
       prim_defs Let_def)

text \<open>
  C8. The service loop runs its body as long as \<open>usdxPowerOn\<close> is true or the read
  index differs from the write index and leaves at the first evaluation of the condition
  where both fail: when it has returned, the state is the one after some number of
  passes, the condition held before each of them and fails now; when it has not
  returned after the given passes, the condition held every time. When \<open>loop()\<close>
  returns, it has left the service loop, then detached both interrupts without writing
  to the serial link, then appended the PoweredDown frame (0x27, 0x26).
\<close>

theorem service_loop_and_power_down:
  "(serviceLoop ps s = Some s' \<longrightarrow>
      (\<exists>n\<le>length ps. s' = afterPasses (take n ps) s
         \<and> (\<forall>k<n. serviceGuard (afterPasses (take k ps) s))
         \<and> \<not> usdxPowerOn s' \<and> idxOfNextLcdRead s' = idxOfNextLcdWrite s'))
   \<and> (serviceLoop ps s = None \<longrightarrow>
        (\<forall>k\<le>length ps. serviceGuard (afterPasses (take k ps) s)))
   \<and> serviceGuard s = (usdxPowerOn s \<or> idxOfNextLcdRead s \<noteq> idxOfNextLcdWrite s)
   \<and> (sketch_loop inp s = Some s'' \<longrightarrow>
        (\<exists>s1 s2. loop_powerUp (polls inp) s = Some s1
           \<and> serviceLoop (passes inp) (loop_arm s1) = Some s2
           \<and> interrupts (loop_disarm s2) Pin_LCD_POWER = None
           \<and> interrupts (loop_disarm s2) Pin_LCD_ENABLE = None
           \<and> serialOut (loop_disarm s2) = serialOut s2
           \<and> s'' = sendControlMessage USDX_POWERED_DOWN (loop_disarm s2)
           \<and> serialOut s'' = serialOut s2 @ [0x27, 0x26]
           \<and> interrupts s'' Pin_LCD_POWER = None
           \<and> interrupts s'' Pin_LCD_ENABLE = None))"
proof -
  have a: "\<exists>n\<le>length ps. s' = afterPasses (take n ps) s
         \<and> (\<forall>k<n. serviceGuard (afterPasses (take k ps) s))
         \<and> \<not> usdxPowerOn s' \<and> idxOfNextLcdRead s' = idxOfNextLcdWrite s'"
    if "serviceLoop ps s = Some s'"
    using serviceLoop_Some [OF that] by (auto simp add: serviceGuard_def)
  have b: "\<forall>k\<le>length ps. serviceGuard (afterPasses (take k ps) s)"
    if "serviceLoop ps s = None"
    using serviceLoop_None [OF that] .
  have c: "\<exists>s1 s2. loop_powerUp (polls inp) s = Some s1
           \<and> serviceLoop (passes inp) (loop_arm s1) = Some s2
           \<and> interrupts (loop_disarm s2) Pin_LCD_POWER = None
           \<and> interrupts (loop_disarm s2) Pin_LCD_ENABLE = None
           \<and> serialOut (loop_disarm s2) = serialOut s2
           \<and> s'' = sendControlMessage USDX_POWERED_DOWN (loop_disarm s2)
           \<and> serialOut s'' = serialOut s2 @ [0x27, 0x26]
           \<and> interrupts s'' Pin_LCD_POWER = None
           \<and> interrupts s'' Pin_LCD_ENABLE = None"
    if "sketch_loop inp s = Some s''"
  proof -
    from that obtain s1 s2 where p: "loop_powerUp (polls inp) s = Some s1"
      and l: "serviceLoop (passes inp) (loop_arm s1) = Some s2"
      and d: "s'' = loop_powerDown s2"
      by (auto simp add: sketch_loop_def split: option.splits)
    from p l d powerDown_effect [of s2] show ?thesis by auto
  qed
  from a b c show ?thesis by (simp add: serviceGuard_def)
qed

theorem service_loop_and_power_down_witness:
  "(case sketch_loop powerCycle booted of
      None \<Rightarrow> False
    | Some t \<Rightarrow> serialOut t = [0x27, 0x27, 0x41, 0x27, 0x26]
         \<and> interrupts t Pin_LCD_POWER = None \<and> interrupts t Pin_LCD_ENABLE = None
         \<and> \<not> usdxPowerOn t)"
proof -
  have ex: "case sketch_loop powerCycle booted of None \<Rightarrow> False
            | Some t \<Rightarrow> serialOut t = [0x27, 0x27, 0x41, 0x27, 0x26] \<and> \<not> usdxPowerOn t"
    by code_simp
  then obtain t where t: "sketch_loop powerCycle booted = Some t"
    and out: "serialOut t = [0x27, 0x27, 0x41, 0x27, 0x26]" "\<not> usdxPowerOn t"
    by (auto split: option.splits)
  from service_loop_and_power_down [of "[]" booted booted powerCycle t] t
  have "interrupts t Pin_LCD_POWER = None \<and> interrupts t Pin_LCD_ENABLE = None"
    by auto
  with t out show ?thesis by simp
qed

section \<open>The encoder rotation\<close>

lemma encoderStep_phase:
  "Encoder_state (encoderStep now entry u) =
     (if now - Encoder_stateTime u < PULSE_DURATION then Encoder_state u
      else nextPhase (Encoder_state u))"
  by (cases "Encoder_state u")
     (simp_all add: encoderStep_def emu_defs prim_defs Let_def)

lemma encoderStep_wait:
  "now - Encoder_stateTime u < PULSE_DURATION \<Longrightarrow> encoderStep now entry u = u"
  by (simp add: encoderStep_def Encoder_emulate_def)

lemma encoderStep_entry:
  "\<not> now - Encoder_stateTime u < PULSE_DURATION \<Longrightarrow> Encoder_state u \<noteq> ENC_STATE_IDLE \<Longrightarrow>
     Encoder_stateTime (encoderStep now entry u) = entry"
  by (cases "Encoder_state u")
     (simp_all add: encoderStep_def emu_defs prim_defs Let_def)

lemma trace_hd: "\<exists>rest. encoderTrace ts u = u # rest"
  by (cases ts) simp_all

lemma phasesFrom_next:
  "x \<noteq> ENC_STATE_IDLE \<Longrightarrow> phasesFrom x = x # phasesFrom (nextPhase x)"
  by (cases x) simp_all

lemma phasesFrom_hd: "\<exists>r. phasesFrom x = x # r"
  by (cases x) simp_all

lemma trace_phases:
  "prefix (remdups_adj (map Encoder_state (encoderTrace ts u))) (phasesFrom (Encoder_state u))"
proof (induction ts arbitrary: u)
  case Nil
  obtain r where "phasesFrom (Encoder_state u) = Encoder_state u # r"
    using phasesFrom_hd by blast
  then show ?case by simp
next
  case (Cons t ts)
  let ?u' = "encoderStep (fst t) (snd t) u"
  obtain rest where rest: "encoderTrace ts ?u' = ?u' # rest"
    using trace_hd by blast
  have ih: "prefix (remdups_adj (map Encoder_state (encoderTrace ts ?u')))
              (phasesFrom (Encoder_state ?u'))"
    by (rule Cons.IH)
  show ?case
  proof (cases "Encoder_state ?u' = Encoder_state u")
    case True
    then have "remdups_adj (map Encoder_state (encoderTrace (t # ts) u)) =
        remdups_adj (map Encoder_state (encoderTrace ts ?u'))"
      using rest by simp
    with ih True show ?thesis by simp
  next
    case False
    then have nxt: "Encoder_state ?u' = nextPhase (Encoder_state u)"
      by (simp add: encoderStep_phase split: if_splits)
    with False have notidle: "Encoder_state u \<noteq> ENC_STATE_IDLE"
      by (cases "Encoder_state u") simp_all
    have "remdups_adj (map Encoder_state (encoderTrace (t # ts) u)) =
        Encoder_state u # remdups_adj (map Encoder_state (encoderTrace ts ?u'))"
      using rest False by simp
    with ih nxt phasesFrom_next [OF notidle] show ?thesis by simp
  qed
qed

lemma encoderStep_cases:
  "encoderStep now entry u =
     (if now - Encoder_stateTime u < PULSE_DURATION then u
      else case Encoder_state u of
        ENC_STATE_IDLE \<Rightarrow> u
      | ENC_STATE_1 \<Rightarrow>
          u\<lparr>pinModes := (pinModes u)(Encoder_secondPin u := OUTPUT),
            pinLevels := (pinLevels u)(Encoder_secondPin u := LOW),
            Encoder_state := ENC_STATE_2, Encoder_stateTime := entry\<rparr>
      | ENC_STATE_2 \<Rightarrow>
          u\<lparr>pinModes := (pinModes u)(Encoder_firstPin u := INPUT),
            Encoder_state := ENC_STATE_3, Encoder_stateTime := entry\<rparr>
      | ENC_STATE_3 \<Rightarrow>
          u\<lparr>pinModes := (pinModes u)(Encoder_secondPin u := INPUT),
            Encoder_state := ENC_STATE_IDLE, Encoder_stateTime := entry,
            gestureInProgress := False\<rparr>)"
  by (cases "Encoder_state u")
     (simp_all add: encoderStep_def emu_defs prim_defs Let_def)

lemma rotationPins_step:
  assumes ab: "a \<noteq> b" and low: "\<not> pinLevels s0 a" "\<not> pinLevels s0 b"
    and r: "rotationPins s0 a b u"
  shows "rotationPins s0 a b (encoderStep now entry u)"
proof (cases "now - Encoder_stateTime u < PULSE_DURATION")
  case True
  with r show ?thesis by (simp add: encoderStep_wait)
next
  case False
  from r have pins: "Encoder_firstPin u = a" "Encoder_secondPin u = b"
    and others: "\<forall>p. p \<noteq> a \<and> p \<noteq> b \<longrightarrow> pinModes u p = pinModes s0 p"
    and lv: "pinLevels u = pinLevels s0"
    by (simp_all add: rotationPins_def)
  have upd: "(pinLevels s0)(b := LOW) = pinLevels s0"
    using low by (simp add: fun_upd_idem_iff)
  show ?thesis
  proof (cases "Encoder_state u")
    case ENC_STATE_IDLE
    with r False show ?thesis by (simp add: encoderStep_cases)
  next
    case ENC_STATE_1
    with r False pins others lv upd ab low show ?thesis
      by (simp add: encoderStep_cases rotationPins_def drivesHigh_def)
  next
    case ENC_STATE_2
    with r False pins others lv ab low show ?thesis
      by (simp add: encoderStep_cases rotationPins_def drivesHigh_def)
  next
    case ENC_STATE_3
    with r False pins others lv ab low show ?thesis
      by (simp add: encoderStep_cases rotationPins_def drivesHigh_def)
  qed
qed

lemma rotationPins_trace:
  assumes "a \<noteq> b" "\<not> pinLevels s0 a" "\<not> pinLevels s0 b"
  shows "rotationPins s0 a b u \<Longrightarrow> \<forall>v\<in>set (encoderTrace ts u). rotationPins s0 a b v"
proof (induction ts arbitrary: u)
  case Nil
  then show ?case by simp
next
  case (Cons t ts)
  from rotationPins_step [OF assms Cons.prems]
  have "rotationPins s0 a b (encoderStep (fst t) (snd t) u)" .
  from Cons.IH [OF this] Cons.prems show ?case by simp
qed

lemma startRotation_flat:
  "Encoder_startRotation a b t0 s =
     s\<lparr>Encoder_firstPin := a, Encoder_secondPin := b,
       pinModes := (pinModes s)(a := OUTPUT), pinLevels := (pinLevels s)(a := LOW),
       Encoder_state := ENC_STATE_1, Encoder_stateTime := t0\<rparr>"
  by (simp add: Encoder_startRotation_def Encoder_dropFirstPin_def prim_defs Let_def)

lemma rotate_gesture:
  "performInputGesture 4 t0 s =
     Encoder_startRotation Pin_ROT_A Pin_ROT_B t0 (s\<lparr>gestureInProgress := True\<rparr>)"
  "performInputGesture 5 t0 s =
     Encoder_startRotation Pin_ROT_B Pin_ROT_A t0 (s\<lparr>gestureInProgress := True\<rparr>)"
  by (simp_all add: performInputGesture_def Let_def)

lemma startRotation_pins:
  assumes "a \<noteq> b" "\<not> pinLevels s a" "\<not> pinLevels s b"
  shows "rotationPins s a b (Encoder_startRotation a b t0 (s\<lparr>gestureInProgress := True\<rparr>))"
proof -
  have "(pinLevels s)(a := LOW) = pinLevels s"
    using assms by (simp add: fun_upd_idem_iff)
  with assms show ?thesis
    by (simp add: startRotation_flat rotationPins_def drivesHigh_def)
qed

lemma rotate_start:
  assumes g: "(gesture = 4 \<and> a = Pin_ROT_A \<and> b = Pin_ROT_B) \<or> (gesture = 5 \<and> a = Pin_ROT_B \<and> b = Pin_ROT_A)"
    and low: "\<not> pinLevels s a" "\<not> pinLevels s b"
  shows "Encoder_state (performInputGesture gesture t0 s) = ENC_STATE_1
    \<and> Encoder_stateTime (performInputGesture gesture t0 s) = t0
    \<and> gestureInProgress (performInputGesture gesture t0 s)
    \<and> rotationPins s a b (performInputGesture gesture t0 s)"
proof -
  from g have ab: "a \<noteq> b" by auto
  from g have eq: "performInputGesture gesture t0 s =
      Encoder_startRotation a b t0 (s\<lparr>gestureInProgress := True\<rparr>)"
    by (auto simp add: rotate_gesture)
  from startRotation_pins [OF ab low, of t0] eq show ?thesis
    by (simp add: startRotation_flat)
qed

lemma full_rotation:
  assumes p: "prefix xs [ENC_STATE_1, ENC_STATE_2, ENC_STATE_3, ENC_STATE_IDLE]"
    and l: "xs \<noteq> []" "last xs = ENC_STATE_IDLE"
  shows "xs = [ENC_STATE_1, ENC_STATE_2, ENC_STATE_3, ENC_STATE_IDLE]"
proof -
  from p have "xs \<in> set (prefixes [ENC_STATE_1, ENC_STATE_2, ENC_STATE_3, ENC_STATE_IDLE])"
    by (simp only: in_set_prefixes)
  with l show ?thesis by auto
qed

lemma low_fire: "encoder_latches_low s \<Longrightarrow> encoder_latches_low (fire a s)"
  by (cases a)
     (simp_all add: encoder_latches_low_def interrupt_def lcdActivityISR_def usdxPowerDownISR_def
        prim_defs Let_def split: option.splits isr.splits)

lemma low_reset: "encoder_latches_low s \<Longrightarrow> encoder_latches_low (doUsdxReset now s)"
  by (simp add: encoder_latches_low_def doUsdxReset_def Button_startClick_def endClick_flat
        prim_defs Let_def)

lemma low_gesture: "encoder_latches_low s \<Longrightarrow> encoder_latches_low (performInputGesture g now s)"
proof -
  assume l: "encoder_latches_low s"
  then have l1: "encoder_latches_low (s\<lparr>gestureInProgress := True\<rparr>)"
    by (simp add: encoder_latches_low_def)
  show ?thesis
  proof (cases "g = 8")
    case True
    with low_reset [OF l1, of now] show ?thesis by (simp add: performInputGesture_def Let_def)
  next
    case False
    with l show ?thesis
      by (simp add: encoder_latches_low_def performInputGesture_def startPushToTalk_def
            endPushToTalk_def Button_startClick_def startRotation_flat prim_defs Let_def)
  qed
qed

lemma low_dispatch: "encoder_latches_low s \<Longrightarrow> encoder_latches_low (dispatchStep now s)"
proof -
  assume l: "encoder_latches_low s"
  then have "encoder_latches_low (s\<lparr>serialIn := tl (serialIn s)\<rparr>)"
    by (simp add: encoder_latches_low_def)
  from low_gesture [OF this] l show ?thesis by (simp add: dispatchStep_def Let_def)
qed

lemma low_button: "encoder_latches_low s \<Longrightarrow> encoder_latches_low (buttonStep now s)"
  by (simp add: encoder_latches_low_def buttonStep_def Button_emulate_def endClick_flat Let_def)

lemma low_encoder: "encoder_latches_low s \<Longrightarrow> encoder_latches_low (encoderStep now entry s)"
  by (cases "Encoder_state s") (simp_all add: encoder_latches_low_def encoderStep_cases)

lemma low_step: "encoder_latches_low s \<Longrightarrow> encoder_latches_low (step e s)"
  by (cases e)
     (simp_all add: low_fire low_dispatch low_button low_encoder,
      simp_all add: encoder_latches_low_def drainStep_def prim_defs sendControlMessage_def
        loop_arm_def loop_disarm_def Let_def)

lemma low_run: "encoder_latches_low s \<Longrightarrow> encoder_latches_low (run es s)"
  by (induction es arbitrary: s) (simp_all add: low_step)

lemma flashLed_levels [simp]:
  "pinLevels (flashLed n s) p = (if p = LED_BUILTIN \<and> 0 < n then LOW else pinLevels s p)"
  by (induction n arbitrary: s) (simp_all add: prim_defs)

lemma low_booted: "encoder_latches_low booted"
  by (simp add: encoder_latches_low_def booted_def sketch_setup_def powerOnReset_def prim_defs Let_def)

text \<open>
  C6. A rotate gesture (4: clockwise, pins (A,B); 5: counterclockwise, pins (B,A)) puts
  the encoder into phase 1 with the entry time recorded. Over any series of encoder
  steps that follows, the phases visited are an initial part of phase 1, phase 2,
  phase 3, idle, in this order and each once, and all four when the rotation has
  come back to idle. In every state on the way the pins are as \<open>rotationPins\<close> says:
  phase 1 first pin output, phase 2 both outputs, phase 3 first pin input, idle both
  inputs and \<open>gestureInProgress\<close> clear; no other pin and no latch is changed; neither
  pin drives high. A step changes nothing before 5 ms have passed since the entry
  into the phase, moves to the next phase otherwise and records the new entry time.
  In every reachable state the two encoder pins do not drive high, and while a
  rotation is in progress the dispatcher and the Button Emulator do nothing, so no
  second rotation starts before the first is back at idle.
\<close>

theorem encoder_rotation_phases:
  assumes g: "(gesture = 4 \<and> a = Pin_ROT_A \<and> b = Pin_ROT_B)
            \<or> (gesture = 5 \<and> a = Pin_ROT_B \<and> b = Pin_ROT_A)"
    and low: "\<not> pinLevels s a" "\<not> pinLevels s b"
  shows "Encoder_state (performInputGesture gesture t0 s) = ENC_STATE_1
    \<and> Encoder_stateTime (performInputGesture gesture t0 s) = t0
    \<and> gestureInProgress (performInputGesture gesture t0 s)
    \<and> prefix (remdups_adj (map Encoder_state
                 (encoderTrace ts (performInputGesture gesture t0 s))))
         [ENC_STATE_1, ENC_STATE_2, ENC_STATE_3, ENC_STATE_IDLE]
    \<and> (Encoder_state (last (encoderTrace ts (performInputGesture gesture t0 s)))
          = ENC_STATE_IDLE \<longrightarrow>
        remdups_adj (map Encoder_state (encoderTrace ts (performInputGesture gesture t0 s)))
          = [ENC_STATE_1, ENC_STATE_2, ENC_STATE_3, ENC_STATE_IDLE])
    \<and> (\<forall>u\<in>set (encoderTrace ts (performInputGesture gesture t0 s)). rotationPins s a b u)
    \<and> (now - Encoder_stateTime u < PULSE_DURATION \<longrightarrow> encoderStep now entry u = u)
    \<and> (\<not> now - Encoder_stateTime u < PULSE_DURATION \<longrightarrow>
          Encoder_state (encoderStep now entry u) = nextPhase (Encoder_state u))
    \<and> (\<not> now - Encoder_stateTime u < PULSE_DURATION \<and> Encoder_state u \<noteq> ENC_STATE_IDLE \<longrightarrow>
          Encoder_stateTime (encoderStep now entry u) = entry)
    \<and> \<not> drivesHigh (run es booted) Pin_ROT_A \<and> \<not> drivesHigh (run es booted) Pin_ROT_B
    \<and> (Encoder_rotationInProgress (run es booted) \<longrightarrow>
          dispatchStep now (run es booted) = run es booted
          \<and> buttonStep now (run es booted) = run es booted)"
proof -
  let ?s1 = "performInputGesture gesture t0 s"
  let ?phases = "remdups_adj (map Encoder_state (encoderTrace ts ?s1))"
  from g have ab: "a \<noteq> b" by auto
  have start: "Encoder_state ?s1 = ENC_STATE_1 \<and> Encoder_stateTime ?s1 = t0
      \<and> gestureInProgress ?s1 \<and> rotationPins s a b ?s1"
    by (rule rotate_start [OF g low])
  have pre: "prefix ?phases [ENC_STATE_1, ENC_STATE_2, ENC_STATE_3, ENC_STATE_IDLE]"
    using trace_phases [of ts ?s1] start by simp
  have full: "?phases = [ENC_STATE_1, ENC_STATE_2, ENC_STATE_3, ENC_STATE_IDLE]"
    if idle: "Encoder_state (last (encoderTrace ts ?s1)) = ENC_STATE_IDLE"
  proof -
    obtain rest where "encoderTrace ts ?s1 = ?s1 # rest" using trace_hd by blast
    then have ne: "encoderTrace ts ?s1 \<noteq> []" by simp
    then have "last ?phases = ENC_STATE_IDLE" using idle by (simp add: last_map)
    moreover have "?phases \<noteq> []" using ne by simp
    ultimately show ?thesis using pre by (intro full_rotation) simp_all
  qed
  have pins: "\<forall>u\<in>set (encoderTrace ts ?s1). rotationPins s a b u"
    using rotationPins_trace [OF ab low] start by blast
  have timing: "(now - Encoder_stateTime u < PULSE_DURATION \<longrightarrow> encoderStep now entry u = u)
    \<and> (\<not> now - Encoder_stateTime u < PULSE_DURATION \<longrightarrow>
          Encoder_state (encoderStep now entry u) = nextPhase (Encoder_state u))
    \<and> (\<not> now - Encoder_stateTime u < PULSE_DURATION \<and> Encoder_state u \<noteq> ENC_STATE_IDLE \<longrightarrow>
          Encoder_stateTime (encoderStep now entry u) = entry)"
    by (simp add: encoderStep_wait encoderStep_phase encoderStep_entry)
  have reach: "\<not> drivesHigh (run es booted) Pin_ROT_A \<and> \<not> drivesHigh (run es booted) Pin_ROT_B"
    using low_run [OF low_booted, of es] by (simp add: encoder_latches_low_def drivesHigh_def)
  have alone: "dispatchStep now (run es booted) = run es booted
      \<and> buttonStep now (run es booted) = run es booted"
    if "Encoder_rotationInProgress (run es booted)"
    using that excl_run [OF excl_booted, of es]
    by (simp add: emulators_exclusive_def dispatchStep_def buttonStep_def)
  from start pre full pins timing reach alone show ?thesis by blast
qed

theorem encoder_rotation_phases_witness:
  "map Encoder_state (encoderTrace clockwiseTicks (performInputGesture 4 0 booted)) =
     [ENC_STATE_1, ENC_STATE_1, ENC_STATE_2, ENC_STATE_2, ENC_STATE_3, ENC_STATE_IDLE,
      ENC_STATE_IDLE]
   \<and> remdups_adj (map Encoder_state
        (encoderTrace clockwiseTicks (performInputGesture 4 0 booted))) =
     [ENC_STATE_1, ENC_STATE_2, ENC_STATE_3, ENC_STATE_IDLE]
   \<and> rotationPins booted Pin_ROT_A Pin_ROT_B
        (last (encoderTrace clockwiseTicks (performInputGesture 4 0 booted)))
   \<and> encoderStep 4 4 (performInputGesture 4 0 booted) = performInputGesture 4 0 booted
   \<and> Encoder_state (encoderStep 5 5 (performInputGesture 4 0 booted)) = ENC_STATE_2"
proof -
  let ?s1 = "performInputGesture 4 0 booted"
  have low: "\<not> pinLevels booted Pin_ROT_A" "\<not> pinLevels booted Pin_ROT_B"
    using low_booted by (simp_all add: encoder_latches_low_def)
  have tr: "map Encoder_state (encoderTrace clockwiseTicks ?s1) =
     [ENC_STATE_1, ENC_STATE_1, ENC_STATE_2, ENC_STATE_2, ENC_STATE_3, ENC_STATE_IDLE,
      ENC_STATE_IDLE]"
    by code_simp
  have ne: "encoderTrace clockwiseTicks ?s1 \<noteq> []"
    by (simp add: clockwiseTicks_def)
  have idle: "Encoder_state (last (encoderTrace clockwiseTicks ?s1)) = ENC_STATE_IDLE"
    using tr ne by (simp flip: last_map)
  have t0: "Encoder_stateTime ?s1 = 0" "Encoder_state ?s1 = ENC_STATE_1"
    by (simp_all add: rotate_gesture startRotation_flat)
  have w: "(4::time) - 0 < PULSE_DURATION" "\<not> (5::time) - 0 < PULSE_DURATION" by simp_all
  note th = encoder_rotation_phases [of 4 Pin_ROT_A Pin_ROT_B booted 0 clockwiseTicks _ ?s1 _ "[]",
      OF _ low]
  from th [of 4 4] th [of 5 5] tr idle ne t0 w show ?thesis by simp
qed

section \<open>The capture buffer\<close>

lemma and_mask_mod: "(x::int) AND 1023 = x mod 1024"
proof -
  have "x AND mask 10 = x mod 2 ^ 10"
    by (simp only: take_bit_eq_mod flip: take_bit_eq_mask)
  then show ?thesis by (simp add: mask_eq_exp_minus_1)
qed

lemma mod_small: "0 \<le> x \<Longrightarrow> x < 1024 \<Longrightarrow> x mod 1024 = (x::int)"
  by simp

lemma mod_neg: "- 1024 \<le> x \<Longrightarrow> x < 0 \<Longrightarrow> x mod 1024 = (x::int) + 1024"
proof -
  assume a: "- 1024 \<le> x" "x < 0"
  have "x mod 1024 = (x + 1024) mod 1024" by simp
  also have "\<dots> = x + 1024" using a by (intro mod_pos_pos_trivial) simp_all
  finally show ?thesis .
qed

lemma mod_once: "1024 \<le> x \<Longrightarrow> x < 2048 \<Longrightarrow> x mod 1024 = (x::int) - 1024"
proof -
  assume a: "1024 \<le> x" "x < 2048"
  have "x mod 1024 = (x - 1024) mod 1024" by (simp add: mod_diff_right_eq [symmetric])
  also have "\<dots> = x - 1024" using a by (intro mod_pos_pos_trivial) simp_all
  finally show ?thesis .
qed

lemma dist_cases:
  assumes "0 \<le> r" "r < 1024" "0 \<le> w" "w < 1024"
  shows "(w - r) mod 1024 = (if r \<le> w then w - r else w - r + (1024::int))"
  using assms mod_small [of "w - r"] mod_neg [of "w - r"] by auto

lemma wrap_cases:
  assumes "0 \<le> x" "x < 2048"
  shows "x mod 1024 = (if x < 1024 then x else x - (1024::int))"
  using assms mod_small [of x] mod_once [of x] by auto

lemma dist_reaches_write: "0 \<le> r \<Longrightarrow> r < 1024 \<Longrightarrow> 0 \<le> w \<Longrightarrow> w < 1024 \<Longrightarrow>
    (r + (w - r) mod 1024) mod 1024 = (w::int)"
  by (simp add: dist_cases wrap_cases)

lemma dist_before_write: "0 \<le> r \<Longrightarrow> r < 1024 \<Longrightarrow> 0 \<le> w \<Longrightarrow> w < 1024 \<Longrightarrow> 0 \<le> k \<Longrightarrow>
    k < (w - r) mod 1024 \<Longrightarrow> (r + k) mod 1024 \<noteq> (w::int)"
  by (simp add: dist_cases wrap_cases split: if_splits)

lemma dist_after_append: "0 \<le> r \<Longrightarrow> r < 1024 \<Longrightarrow> 0 \<le> w \<Longrightarrow> w < 1024 \<Longrightarrow>
    (w - r) mod 1024 < 1023 \<Longrightarrow> ((w + 1) mod 1024 - r) mod 1024 = (w - r) mod 1024 + (1::int)"
  by (simp add: dist_cases wrap_cases split: if_splits)

lemma dist_after_drain: "0 \<le> r \<Longrightarrow> r < 1024 \<Longrightarrow> 0 \<le> w \<Longrightarrow> w < 1024 \<Longrightarrow> r \<noteq> w \<Longrightarrow>
    (w - (r + 1) mod 1024) mod 1024 = (w - r) mod 1024 - (1::int) \<and> 0 < (w - r) mod 1024"
  by (simp add: dist_cases wrap_cases split: if_splits)

lemma shift_read: "((r + 1) mod 1024 + k) mod 1024 = (r + (k + 1)) mod (1024::int)"
proof -
  have "((r + 1) mod 1024 + k) mod 1024 = (r + 1 + k) mod 1024"
    by (rule mod_add_left_eq)
  also have "r + 1 + k = r + (k + 1)" by simp
  finally show ?thesis .
qed

lemma dist_zero: "0 \<le> r \<Longrightarrow> r < 1024 \<Longrightarrow> 0 \<le> w \<Longrightarrow> w < 1024 \<Longrightarrow>
    ((w - r) mod 1024 = 0) = (r = (w::int))"
  by (auto simp add: dist_cases)


lemma isr_fields:
  "lcdBuffer (lcdActivityISR portd s) = (lcdBuffer s)[nat (idxOfNextLcdWrite s) := portd]"
  "idxOfNextLcdWrite (lcdActivityISR portd s) = (idxOfNextLcdWrite s + 1) mod BUFFER_SIZE"
  "idxOfNextLcdRead (lcdActivityISR portd s) = idxOfNextLcdRead s"
  "serialOut (lcdActivityISR portd s) = serialOut s"
  "pinLevels (lcdActivityISR portd s) LED_BUILTIN =
     ((idxOfNextLcdWrite s + 1) mod BUFFER_SIZE = idxOfNextLcdRead s \<or> pinLevels s LED_BUILTIN)"
  by (simp_all add: lcdActivityISR_def digitalWrite_def Let_def and_mask_mod)

lemma drain_flat:
  "drainStep s =
     (if idxOfNextLcdRead s \<noteq> idxOfNextLcdWrite s
      then s\<lparr>serialOut := serialOut s @ [lcdBuffer s ! nat (idxOfNextLcdRead s)],
             idxOfNextLcdRead := (idxOfNextLcdRead s + 1) mod BUFFER_SIZE\<rparr>
      else s)"
  by (simp add: drainStep_def Serial_write_def Let_def and_mask_mod)

lemma length_unread:
  "length (unread s) = nat ((idxOfNextLcdWrite s - idxOfNextLcdRead s) mod BUFFER_SIZE)"
  by (simp add: unread_def)

lemma unread_isr:
  assumes ok: "idx_ok s" and room: "length (unread s) < 1023"
  shows "unread (lcdActivityISR portd s) = unread s @ [portd]"
proof -
  let ?r = "idxOfNextLcdRead s" and ?w = "idxOfNextLcdWrite s"
  let ?n = "nat ((?w - ?r) mod 1024)"
  from ok have b: "0 \<le> ?r" "?r < 1024" "0 \<le> ?w" "?w < 1024"
    and len: "length (lcdBuffer s) = 1024"
    by (simp_all add: idx_ok_def)
  have d0: "0 \<le> (?w - ?r) mod 1024" by simp
  from room have d: "(?w - ?r) mod 1024 < 1023" by (simp add: length_unread)
  have n': "nat (((?w + 1) mod 1024 - ?r) mod 1024) = Suc ?n"
    using dist_after_append [OF b d] d0 by simp
  have at_w: "(?r + int ?n) mod 1024 = ?w"
    using dist_reaches_write [OF b] d0 by simp
  have old: "(lcdBuffer s)[nat ?w := portd] ! nat ((?r + int k) mod 1024)
             = lcdBuffer s ! nat ((?r + int k) mod 1024)" if "k < ?n" for k
  proof -
    from that have "int k < (?w - ?r) mod 1024" by simp
    from dist_before_write [OF b _ this] have "(?r + int k) mod 1024 \<noteq> ?w" by simp
    moreover have "0 \<le> (?r + int k) mod 1024" by simp
    ultimately have "nat ((?r + int k) mod 1024) \<noteq> nat ?w" using b by simp
    then show ?thesis by simp
  qed
  have new: "(lcdBuffer s)[nat ?w := portd] ! nat ((?r + int ?n) mod 1024) = portd"
    using at_w b len by simp
  have "unread (lcdActivityISR portd s) =
      map (\<lambda>k. (lcdBuffer s)[nat ?w := portd] ! nat ((?r + int k) mod 1024)) [0 ..< Suc ?n]"
    by (simp only: unread_def isr_fields n')
  also have "\<dots> = map (\<lambda>k. (lcdBuffer s)[nat ?w := portd] ! nat ((?r + int k) mod 1024)) [0 ..< ?n]
      @ [portd]"
    using new by simp
  also have "map (\<lambda>k. (lcdBuffer s)[nat ?w := portd] ! nat ((?r + int k) mod 1024)) [0 ..< ?n]
      = unread s"
    unfolding unread_def using old by (intro map_cong) simp_all
  finally show ?thesis .
qed

lemma unread_drain:
  assumes ok: "idx_ok s"
  shows "serialOut (drainStep s) = serialOut s @ take 1 (unread s)
     \<and> unread (drainStep s) = drop 1 (unread s)"
proof (cases "idxOfNextLcdRead s = idxOfNextLcdWrite s")
  case True
  then have "unread s = []" by (simp add: unread_def)
  with True show ?thesis by (simp add: drain_flat)
next
  case False
  let ?r = "idxOfNextLcdRead s" and ?w = "idxOfNextLcdWrite s"
  let ?n = "nat ((?w - ?r) mod 1024)"
  from ok have b: "0 \<le> ?r" "?r < 1024" "0 \<le> ?w" "?w < 1024"
    by (simp_all add: idx_ok_def)
  from dist_after_drain [OF b False] have n: "(?w - (?r + 1) mod 1024) mod 1024 = (?w - ?r) mod 1024 - 1"
    and pos: "0 < (?w - ?r) mod 1024" by simp_all
  from pos obtain m where m: "?n = Suc m" by (cases ?n) simp_all
  then have m': "nat ((?w - (?r + 1) mod 1024) mod 1024) = m" using n by simp
  have u: "unread s = lcdBuffer s ! nat ?r
      # map (\<lambda>k. lcdBuffer s ! nat ((?r + int (Suc k)) mod 1024)) [0 ..< m]"
    unfolding unread_def m using b by (simp only: map_upt_Suc) simp
  have shift: "((?r + 1) mod 1024 + int k) mod 1024 = (?r + int (Suc k)) mod 1024" for k
    using shift_read [of ?r "int k"] by (simp add: add.commute)
  have u': "unread (drainStep s) =
      map (\<lambda>k. lcdBuffer s ! nat ((?r + int (Suc k)) mod 1024)) [0 ..< m]"
    using False by (simp add: unread_def drain_flat m' shift del: of_nat_Suc)
  from u u' False show ?thesis by (simp add: drain_flat)
qed

lemma fifo_run:
  "idx_ok s \<Longrightarrow> fits (length (unread s)) ops \<Longrightarrow>
     serialOut (bufferRun ops s) @ unread (bufferRun ops s)
       = serialOut s @ unread s @ captured ops"
proof (induction ops arbitrary: s)
  case Nil
  then show ?case by simp
next
  case (Cons x ops)
  show ?case
  proof (cases x)
    case (Capture portd)
    with Cons.prems have room: "length (unread s) < 1023"
      and rest: "fits (Suc (length (unread s))) ops" by simp_all
    have u: "unread (lcdActivityISR portd s) = unread s @ [portd]"
      by (rule unread_isr [OF Cons.prems(1) room])
    have ok': "idx_ok (lcdActivityISR portd s)" by (rule idx_isr [OF Cons.prems(1)])
    from rest u have "fits (length (unread (lcdActivityISR portd s))) ops" by simp
    from Cons.IH [OF ok' this] u Capture show ?thesis by (simp add: isr_fields)
  next
    case Deliver
    from unread_drain [OF Cons.prems(1)]
    have o: "serialOut (drainStep s) = serialOut s @ take 1 (unread s)"
      and u: "unread (drainStep s) = drop 1 (unread s)" by simp_all
    have ok': "idx_ok (drainStep s)" by (rule idx_drain [OF Cons.prems(1)])
    from Cons.prems Deliver u have "fits (length (unread (drainStep s))) ops" by simp
    from Cons.IH [OF ok' this] have "serialOut (bufferRun ops (drainStep s))
        @ unread (bufferRun ops (drainStep s))
        = (serialOut s @ take 1 (unread s)) @ drop 1 (unread s) @ captured ops"
      by (simp only: o u)
    also have "\<dots> = serialOut s @ (take 1 (unread s) @ drop 1 (unread s)) @ captured ops"
      by simp
    finally show ?thesis using Deliver by (simp only: append_take_drop_id bufferRun.simps bufferStep.simps captured.simps)
  qed
qed


lemma unread_overflow:
  "(idxOfNextLcdWrite s + 1) mod BUFFER_SIZE = idxOfNextLcdRead s \<Longrightarrow>
     unread (lcdActivityISR portd s) = []"
  by (simp add: unread_def isr_fields)

lemma isr_stored:
  "idx_ok s \<Longrightarrow> lcdBuffer (lcdActivityISR portd s) ! nat (idxOfNextLcdWrite s) = portd"
  using idx_access [of s] by (simp add: isr_fields)

text \<open>
  C5. With both indices in bounds: the capture handler stores the sampled byte at the
  write index (also when the buffer overflows), advances the write index modulo 1024,
  leaves the read index and the serial output alone, and sets the LED if the new write
  index equals the read index. The drain, when the indices differ, appends the byte at
  the read index to the serial output and advances the read index modulo 1024, and does
  nothing otherwise. In terms of the unread bytes: the handler appends the byte to them
  (as long as fewer than 1023 are unread), the drain moves the first of them to the
  serial output; so over any series of captures and drains that does not overflow, the
  serial output followed by the unread bytes is what it was before followed by the
  captured bytes, in order and unchanged.
\<close>

theorem capture_buffer_fifo:
  assumes ok: "idx_ok s"
  shows "lcdBuffer (lcdActivityISR portd s) = (lcdBuffer s)[nat (idxOfNextLcdWrite s) := portd]
    \<and> lcdBuffer (lcdActivityISR portd s) ! nat (idxOfNextLcdWrite s) = portd
    \<and> idxOfNextLcdWrite (lcdActivityISR portd s) = (idxOfNextLcdWrite s + 1) mod BUFFER_SIZE
    \<and> idxOfNextLcdRead (lcdActivityISR portd s) = idxOfNextLcdRead s
    \<and> serialOut (lcdActivityISR portd s) = serialOut s
    \<and> pinLevels (lcdActivityISR portd s) LED_BUILTIN =
        ((idxOfNextLcdWrite s + 1) mod BUFFER_SIZE = idxOfNextLcdRead s \<or> pinLevels s LED_BUILTIN)
    \<and> drainStep s =
        (if idxOfNextLcdRead s \<noteq> idxOfNextLcdWrite s
         then s\<lparr>serialOut := serialOut s @ [lcdBuffer s ! nat (idxOfNextLcdRead s)],
                idxOfNextLcdRead := (idxOfNextLcdRead s + 1) mod BUFFER_SIZE\<rparr>
         else s)
    \<and> (length (unread s) < 1023 \<longrightarrow> unread (lcdActivityISR portd s) = unread s @ [portd])
    \<and> serialOut (drainStep s) = serialOut s @ take 1 (unread s)
    \<and> unread (drainStep s) = drop 1 (unread s)
    \<and> (fits (length (unread s)) ops \<longrightarrow>
         serialOut (bufferRun ops s) @ unread (bufferRun ops s)
           = serialOut s @ unread s @ captured ops)"
proof -
  have isr: "lcdBuffer (lcdActivityISR portd s) = (lcdBuffer s)[nat (idxOfNextLcdWrite s) := portd]
    \<and> lcdBuffer (lcdActivityISR portd s) ! nat (idxOfNextLcdWrite s) = portd
    \<and> idxOfNextLcdWrite (lcdActivityISR portd s) = (idxOfNextLcdWrite s + 1) mod BUFFER_SIZE
    \<and> idxOfNextLcdRead (lcdActivityISR portd s) = idxOfNextLcdRead s
    \<and> serialOut (lcdActivityISR portd s) = serialOut s
    \<and> pinLevels (lcdActivityISR portd s) LED_BUILTIN =
        ((idxOfNextLcdWrite s + 1) mod BUFFER_SIZE = idxOfNextLcdRead s \<or> pinLevels s LED_BUILTIN)"
    using isr_stored [OF ok, of portd] by (simp add: isr_fields)
  have app: "unread (lcdActivityISR portd s) = unread s @ [portd]" if "length (unread s) < 1023"
    by (rule unread_isr [OF ok that])
  have fifo: "serialOut (bufferRun ops s) @ unread (bufferRun ops s)
           = serialOut s @ unread s @ captured ops" if "fits (length (unread s)) ops"
    by (rule fifo_run [OF ok that])
  from isr drain_flat [of s] app unread_drain [OF ok] fifo show ?thesis by blast
qed

lemma flashLed_serialOut [simp]: "serialOut (flashLed n s) = serialOut s"
  by (induction n arbitrary: s) (simp_all add: prim_defs)

lemma booted_buffer:
  "serialOut booted = []" "idxOfNextLcdRead booted = 0" "idxOfNextLcdWrite booted = 0"
  by (simp_all add: booted_def sketch_setup_def powerOnReset_def prim_defs Let_def)

theorem capture_buffer_fifo_witness:
  "idx_ok booted \<and> fits (length (unread booted)) [Capture 0x41, Deliver]
   \<and> serialOut (bufferRun [Capture 0x41, Deliver] booted)
       @ unread (bufferRun [Capture 0x41, Deliver] booted) = [0x41]
   \<and> lcdBuffer (lcdActivityISR 0x41 booted) ! 0 = 0x41
   \<and> idxOfNextLcdWrite (lcdActivityISR 0x41 booted) = 1
   \<and> unread (lcdActivityISR 0x41 booted) = [0x41]
   \<and> serialOut (drainStep (lcdActivityISR 0x41 booted)) = [0x41]"
proof -
  have e: "unread booted = []" by (simp add: unread_def booted_buffer)
  have ok1: "idx_ok (lcdActivityISR 0x41 booted)" by (rule idx_isr [OF idx_booted])
  note a = capture_buffer_fifo [OF idx_booted, of "0x41" "[Capture 0x41, Deliver]"]
  note b = capture_buffer_fifo [OF ok1, of 0 "[]"]
  have f: "fits (length (unread booted)) [Capture 0x41, Deliver]" by (simp add: e)
  from a have "fits (length (unread booted)) [Capture 0x41, Deliver] \<longrightarrow>
      serialOut (bufferRun [Capture 0x41, Deliver] booted)
        @ unread (bufferRun [Capture 0x41, Deliver] booted)
      = serialOut booted @ unread booted @ captured [Capture 0x41, Deliver]"
    by (elim conjE) assumption
  with f e have w1: "serialOut (bufferRun [Capture 0x41, Deliver] booted)
        @ unread (bufferRun [Capture 0x41, Deliver] booted) = [0x41]"
    by (simp add: booted_buffer)
  from a have "lcdBuffer (lcdActivityISR 0x41 booted) ! nat (idxOfNextLcdWrite booted) = 0x41"
    by (elim conjE) assumption
  then have w2: "lcdBuffer (lcdActivityISR 0x41 booted) ! 0 = 0x41"
    by (simp add: booted_buffer)
  from a have "idxOfNextLcdWrite (lcdActivityISR 0x41 booted)
      = (idxOfNextLcdWrite booted + 1) mod BUFFER_SIZE"
    by (elim conjE) assumption
  then have w3: "idxOfNextLcdWrite (lcdActivityISR 0x41 booted) = 1"
    by (simp add: booted_buffer)
  from a have "length (unread booted) < 1023 \<longrightarrow>
      unread (lcdActivityISR 0x41 booted) = unread booted @ [0x41]"
    by (elim conjE) assumption
  with e have w4: "unread (lcdActivityISR 0x41 booted) = [0x41]" by simp
  from a have o: "serialOut (lcdActivityISR 0x41 booted) = serialOut booted"
    by (elim conjE) assumption
  from b have "serialOut (drainStep (lcdActivityISR 0x41 booted))
      = serialOut (lcdActivityISR 0x41 booted) @ take 1 (unread (lcdActivityISR 0x41 booted))"
    by (elim conjE) assumption
  with o w4 have w5: "serialOut (drainStep (lcdActivityISR 0x41 booted)) = [0x41]"
    by (simp add: booted_buffer)
  from idx_booted f w1 w2 w3 w4 w5 show ?thesis by simp
qed

end
